theory Spec2Isabelle
  imports Main
begin

section \<open>Tasks and supervision (packages/core/src/task.ts)\<close>

text \<open>
  A task is identified by its \<open>id\<close>; the tasks that exist are kept in a store, so that
  the references between tasks (\<open>children\<close>, trappers, \<open>resourceScope\<close>) are ids.
  Every function of \<open>createTask\<close> that mutates the closure's variables takes the store
  and returns it updated, together with how the call ended: normally, by a thrown
  exception (the store keeps what was written before the throw, as the JavaScript heap
  does), or cut off because the recursion budget of the model ran out.
\<close>

type_synonym tid = nat

text \<open>Results of operations (type \<open>TOut\<close>) are opaque.\<close>

type_synonym val = nat

text \<open>Errors handed to \<open>reject\<close> and to awaiters: \<open>new HaltError()\<close> or an error of a body.\<close>

datatype err = HaltError | OperationError nat

datatype task_state =
  Pending | Running | Completing | Completed | Erroring | Errored | Halting | Halted

datatype trigger = Start | Resolve | Reject | Halt | Finish

text \<open>Exceptions thrown by the code itself.\<close>

datatype exn =
  InvalidTransition trigger task_state
  | CannotSpawn
  | NoControls tid

text \<open>
  A trapper is a function value; the model names the three kinds that occur:
  \<open>controls.trap\<close> of a task, a closure \<open>() => haltChildren(force)\<close> made by
  \<open>haltChildren\<close> of a task (each evaluation of the arrow function is a new object,
  told apart by an allocation number), and any other function registered through
  \<open>addTrapper\<close>, which the model treats as opaque.
\<close>

datatype trapper =
  ParentTrap tid
  | HaltNext tid bool nat
  | OtherTrapper nat

text \<open>What an observer can see: the emitter's events and the calls of the hooks.\<close>

datatype event =
  StateEvent tid task_state task_state
  | LinkEvent tid tid
  | UnlinkEvent tid tid
  | HandlerCalled tid nat
  | TrapperCalled tid trapper

record task_options =
  resourceScope :: "tid option"
  blockParent :: bool
  ignoreChildErrors :: bool
  ignoreError :: bool

text \<open>
  Modelled from the spec: \<open>Deferred\<close> (deferred.ts is not among the sources), "one-shot
  producer/consumer of a settled result". The payloads are the fields \<open>controls.result\<close>
  and \<open>controls.error\<close> as they are at that moment, which may be \<open>undefined\<close>.
\<close>

datatype settled = Fulfilled "val option" | Rejected "err option"

text \<open>
  The variables closed over by \<open>createTask\<close>. A JavaScript \<open>Set\<close> keeps insertion
  order: \<open>children\<close> and \<open>ensureHandlers\<close> are lists without repetition. \<open>trappers\<close> is
  changed while \<open>forEach\<close> walks it, so it is kept as the list of entries of the
  \<open>Set\<close>, where a deleted entry stays as an empty slot (\<open>None\<close>) and new entries are
  appended, which is how \<open>Set.prototype.forEach\<close> sees them.
\<close>

record task =
  state :: task_state
  children :: "tid list"
  trappers :: "trapper option list"
  ensureHandlers :: "nat list"
  result :: "val option"
  error :: "err option"
  options :: task_options
  deferred :: "settled option"

record store =
  tasks :: "tid \<Rightarrow> task option"
  COUNTER :: nat
  closures :: nat
  events :: "event list"

datatype outcome = Normal | Threw exn | OutOfFuel

type_synonym run = "outcome \<times> store"

definition seq :: "run \<Rightarrow> (store \<Rightarrow> run) \<Rightarrow> run" where
  "seq r f = (case r of (Normal, s) \<Rightarrow> f s | _ \<Rightarrow> r)"

definition upd :: "tid \<Rightarrow> (task \<Rightarrow> task) \<Rightarrow> store \<Rightarrow> store" where
  "upd t f s = (case tasks s t of None \<Rightarrow> s | Some T \<Rightarrow> s\<lparr>tasks := (tasks s)(t \<mapsto> f T)\<rparr>)"

definition emit :: "event \<Rightarrow> store \<Rightarrow> store" where
  "emit e s = s\<lparr>events := events s @ [e]\<rparr>"

subsection \<open>The state machine\<close>

text \<open>
  Modelled from the spec: the class \<open>StateMachine\<close> (state-machine.ts is not among the
  sources). The table is the one of section 4.2; "any other [trigger] is a programmer
  error", which the model throws. \<open>completing\<close>, \<open>erroring\<close> and \<open>halting\<close> are the
  finishing states; a transition is emitted as a \<open>state\<close> event.
\<close>

fun transitions :: "trigger \<Rightarrow> task_state \<Rightarrow> task_state option" where
  "transitions Start Pending = Some Running"
| "transitions Resolve Running = Some Completing"
| "transitions Reject Running = Some Erroring"
| "transitions Halt Running = Some Halting"
| "transitions Halt Completing = Some Halting"
| "transitions Halt Erroring = Some Halting"
| "transitions Finish Completing = Some Completed"
| "transitions Finish Erroring = Some Errored"
| "transitions Finish Halting = Some Halted"
| "transitions _ _ = None"

definition isFinishing :: "task_state \<Rightarrow> bool" where
  "isFinishing st = (st = Completing \<or> st = Erroring \<or> st = Halting)"

definition isTerminal :: "task_state \<Rightarrow> bool" where
  "isTerminal st = (st = Completed \<or> st = Errored \<or> st = Halted)"

definition stateMachine :: "trigger \<Rightarrow> tid \<Rightarrow> store \<Rightarrow> run" where
  "stateMachine ev t s =
     (case tasks s t of
        None \<Rightarrow> (Threw (NoControls t), s)
      | Some T \<Rightarrow>
          (case transitions ev (state T) of
             None \<Rightarrow> (Threw (InvalidTransition ev (state T)), s)
           | Some st \<Rightarrow>
               (Normal, emit (StateEvent t (state T) st) (upd t (\<lambda>T. T\<lparr>state := st\<rparr>) s))))"

subsection \<open>Trappers, ensure handlers, links\<close>

definition addTrapper :: "tid \<Rightarrow> trapper \<Rightarrow> store \<Rightarrow> store" where
  "addTrapper t tr s =
     upd t (\<lambda>T. if Some tr \<in> set (trappers T) then T
                 else T\<lparr>trappers := trappers T @ [Some tr]\<rparr>) s"

definition removeTrapper :: "tid \<Rightarrow> trapper \<Rightarrow> store \<Rightarrow> store" where
  "removeTrapper t tr s =
     upd t (\<lambda>T. T\<lparr>trappers := map (\<lambda>e. if e = Some tr then None else e) (trappers T)\<rparr>) s"

definition ensure :: "tid \<Rightarrow> nat \<Rightarrow> store \<Rightarrow> store" where
  "ensure t h s =
     upd t (\<lambda>T. if h \<in> set (ensureHandlers T) then T
                 else T\<lparr>ensureHandlers := ensureHandlers T @ [h]\<rparr>) s"

definition link :: "tid \<Rightarrow> tid \<Rightarrow> store \<Rightarrow> run" where
  "link p c s =
     (case tasks s p of
        None \<Rightarrow> (Threw (NoControls p), s)
      | Some P \<Rightarrow>
          if c \<notin> set (children P) then
            (case tasks s c of
               None \<Rightarrow> (Threw (NoControls c), s)
             | Some C \<Rightarrow>
                 (Normal, emit (LinkEvent p c)
                    (upd p (\<lambda>T. T\<lparr>children := children T @ [c]\<rparr>)
                       (addTrapper c (ParentTrap p) s))))
          else (Normal, s))"

definition unlink :: "tid \<Rightarrow> tid \<Rightarrow> store \<Rightarrow> run" where
  "unlink p c s =
     (case tasks s p of
        None \<Rightarrow> (Threw (NoControls p), s)
      | Some P \<Rightarrow>
          if c \<in> set (children P) then
            (case tasks s c of
               None \<Rightarrow> (Threw (NoControls c), s)
             | Some C \<Rightarrow>
                 (Normal, emit (UnlinkEvent p c)
                    (upd p (\<lambda>T. T\<lparr>children := removeAll c (children T)\<rparr>)
                       (removeTrapper c (ParentTrap p) s))))
          else (Normal, s))"

text \<open>
  \<open>ensureHandlers.forEach((handler) => handler())\<close>: a handler is a function of the
  user's; the model records the call and takes it to leave the tasks alone.
\<close>

definition callHandlers :: "tid \<Rightarrow> store \<Rightarrow> store" where
  "callHandlers t s =
     (case tasks s t of
        None \<Rightarrow> s
      | Some T \<Rightarrow> s\<lparr>events := events s @ map (HandlerCalled t) (ensureHandlers T)\<rparr>)"

text \<open>The last step of \<open>resume\<close>: the deferred is settled by the state reached.\<close>

definition settle :: "tid \<Rightarrow> store \<Rightarrow> store" where
  "settle t s =
     upd t (\<lambda>T.
       if deferred T \<noteq> None then T
       else if state T = Completed then T\<lparr>deferred := Some (Fulfilled (result T))\<rparr>
       else if state T = Halted then T\<lparr>deferred := Some (Rejected (Some HaltError))\<rparr>
       else if state T = Errored then T\<lparr>deferred := Some (Rejected (error T))\<rparr>
       else T) s"

subsection \<open>resume, haltChildren, resolve, reject, halted, trap, halt\<close>

text \<open>
  These functions call each other, also through the trappers of other tasks, and on a
  store that is not one the program builds the calls need not end. Each function is
  written with the calls it makes to the others passed through \<open>call\<close>; \<open>exec n\<close> ties
  them together, \<open>n\<close> bounding the depth of the calls, and \<open>OutOfFuel\<close> is the answer when
  it is used up.
\<close>

datatype call =
  CallResume tid
  | CallTrappers tid nat
  | CallHaltChildren tid bool
  | CallHalt tid
  | CallControllerHalt tid
  | CallHalted tid
  | CallResolve tid val
  | CallReject tid "err option"
  | CallTrap tid tid

type_synonym calls = "call \<Rightarrow> store \<Rightarrow> run"

definition resume :: "calls \<Rightarrow> tid \<Rightarrow> store \<Rightarrow> run" where
  "resume call t s =
     (case tasks s t of
        None \<Rightarrow> (Threw (NoControls t), s)
      | Some T \<Rightarrow>
          if isFinishing (state T) \<and> children T = [] then
            seq (stateMachine Finish t s) (\<lambda>s.
            seq (call (CallTrappers t 0) (callHandlers t s)) (\<lambda>s.
              (Normal, settle t (upd t (\<lambda>T. T\<lparr>ensureHandlers := [], trappers := []\<rparr>) s))))
          else (Normal, s))"

text \<open>
  \<open>callTrappers call t i\<close> is \<open>trappers.forEach((trapper) => trapper(task))\<close> from entry
  \<open>i\<close> of the set on: an empty slot is skipped, an entry appended meanwhile is reached.
\<close>

definition callTrappers :: "calls \<Rightarrow> tid \<Rightarrow> nat \<Rightarrow> store \<Rightarrow> run" where
  "callTrappers call t i s =
     (case tasks s t of
        None \<Rightarrow> (Threw (NoControls t), s)
      | Some T \<Rightarrow>
          if i < length (trappers T) then
            (case trappers T ! i of
               None \<Rightarrow> call (CallTrappers t (Suc i)) s
             | Some tr \<Rightarrow>
                 seq (case tr of
                        ParentTrap p \<Rightarrow> call (CallTrap p t) (emit (TrapperCalled t tr) s)
                      | HaltNext p force k \<Rightarrow>
                          call (CallHaltChildren p force) (emit (TrapperCalled t tr) s)
                      | OtherTrapper k \<Rightarrow> (Normal, emit (TrapperCalled t tr) s))
                     (call (CallTrappers t (Suc i))))
          else (Normal, s))"

text \<open>The loop of \<open>haltChildren\<close>, over \<open>Array.from(children).reverse()\<close>.\<close>

primrec haltChildrenLoop :: "calls \<Rightarrow> tid \<Rightarrow> bool \<Rightarrow> tid list \<Rightarrow> store \<Rightarrow> run" where
  "haltChildrenLoop call t force [] s = (Normal, s)"
| "haltChildrenLoop call t force (child # rest) s =
     (case tasks s child of
        None \<Rightarrow> (Threw (NoControls child), s)
      | Some C \<Rightarrow>
          if force \<or> \<not> blockParent (options C) then
            call (CallHalt child)
              (addTrapper child (HaltNext t force (closures s)) (s\<lparr>closures := Suc (closures s)\<rparr>))
          else haltChildrenLoop call t force rest s)"

definition haltChildren :: "calls \<Rightarrow> tid \<Rightarrow> bool \<Rightarrow> store \<Rightarrow> run" where
  "haltChildren call t force s =
     (case tasks s t of
        None \<Rightarrow> (Threw (NoControls t), s)
      | Some T \<Rightarrow> haltChildrenLoop call t force (rev (children T)) s)"

text \<open>
  \<open>task.halt()\<close> calls \<open>controller.halt()\<close>; the promise it returns then waits for the
  deferred, which changes nothing. \<open>halt\<close> is an \<open>async\<close> function: an exception of
  \<open>controller.halt()\<close> rejects that promise and does not reach the caller of \<open>halt\<close>.

  Modelled from the spec: \<open>controller.halt()\<close> (of the controllers only
  FunctionContoller is among the sources, and it hands \<open>halt\<close> on to a controller that
  is not). Section 5: halt "forces halting state, triggers the halt-cascade for
  children", which is what \<open>controls.halted()\<close> does, and it "is idempotent":
  "subsequent calls are no-ops"; so \<open>controllerHalt\<close> calls \<open>halted\<close> unless the task is
  halting already or has reached a terminal state.
\<close>

definition halt :: "calls \<Rightarrow> tid \<Rightarrow> store \<Rightarrow> run" where
  "halt call t s =
     (case call (CallControllerHalt t) s of
        (Threw e, s') \<Rightarrow> (Normal, s')
      | r \<Rightarrow> r)"

definition controllerHalt :: "calls \<Rightarrow> tid \<Rightarrow> store \<Rightarrow> run" where
  "controllerHalt call t s =
     (case tasks s t of
        None \<Rightarrow> (Threw (NoControls t), s)
      | Some T \<Rightarrow>
          if state T = Halting \<or> isTerminal (state T) then (Normal, s)
          else call (CallHalted t) s)"

definition halted :: "calls \<Rightarrow> tid \<Rightarrow> store \<Rightarrow> run" where
  "halted call t s =
     seq (stateMachine Halt t s) (\<lambda>s.
     seq (call (CallHaltChildren t True) s) (call (CallResume t)))"

definition resolve :: "calls \<Rightarrow> tid \<Rightarrow> val \<Rightarrow> store \<Rightarrow> run" where
  "resolve call t v s =
     seq (stateMachine Resolve t s) (\<lambda>s.
     seq (call (CallHaltChildren t False) (upd t (\<lambda>T. T\<lparr>result := Some v\<rparr>) s))
         (call (CallResume t)))"

definition reject :: "calls \<Rightarrow> tid \<Rightarrow> err option \<Rightarrow> store \<Rightarrow> run" where
  "reject call t e s =
     seq (stateMachine Reject t s) (\<lambda>s.
     seq (call (CallHaltChildren t True) (upd t (\<lambda>T. T\<lparr>result := None, error := e\<rparr>) s))
         (call (CallResume t)))"

definition trap :: "calls \<Rightarrow> tid \<Rightarrow> tid \<Rightarrow> store \<Rightarrow> run" where
  "trap call p child s =
     (case tasks s p of
        None \<Rightarrow> (Threw (NoControls p), s)
      | Some P \<Rightarrow>
          if child \<in> set (children P) then
            seq (case tasks s child of
                   None \<Rightarrow> (Threw (NoControls child), s)
                 | Some C \<Rightarrow>
                     if state C = Errored \<and> \<not> ignoreError (options C)
                        \<and> \<not> ignoreChildErrors (options P)
                     then call (CallReject p (error C)) s
                     else (Normal, s))
                (\<lambda>s. seq (unlink p child s) (call (CallResume p)))
          else call (CallResume p) s)"

primrec exec :: "nat \<Rightarrow> call \<Rightarrow> store \<Rightarrow> run" where
  "exec 0 c s = (OutOfFuel, s)"
| "exec (Suc n) c s =
     (case c of
        CallResume t \<Rightarrow> resume (exec n) t s
      | CallTrappers t i \<Rightarrow> callTrappers (exec n) t i s
      | CallHaltChildren t force \<Rightarrow> haltChildren (exec n) t force s
      | CallHalt t \<Rightarrow> halt (exec n) t s
      | CallControllerHalt t \<Rightarrow> controllerHalt (exec n) t s
      | CallHalted t \<Rightarrow> halted (exec n) t s
      | CallResolve t v \<Rightarrow> resolve (exec n) t v s
      | CallReject t e \<Rightarrow> reject (exec n) t e s
      | CallTrap p child \<Rightarrow> trap (exec n) p child s)"

subsection \<open>createTask, start, spawn\<close>

definition createTask :: "task_options \<Rightarrow> store \<Rightarrow> tid \<times> store" where
  "createTask opts s =
     (let id = Suc (COUNTER s) in
      (id, s\<lparr>COUNTER := id,
             tasks := (tasks s)(id \<mapsto>
               \<lparr>state = Pending, children = [], trappers = [], ensureHandlers = [],
                result = None, error = None, options = opts, deferred = None\<rparr>)\<rparr>))"

text \<open>
  Modelled from the spec: \<open>controller.start()\<close> (controller.ts is not among the sources).
  "The controller resolves/rejects/halts, triggering the state machine and
  halt-cascade": what the body does reaches the task as later calls of
  \<open>controls.resolve\<close>, \<open>controls.reject\<close> and \<open>controls.halted\<close>, so starting the
  controller changes nothing by itself.
\<close>

definition start :: "tid \<Rightarrow> store \<Rightarrow> run" where
  "start t s = stateMachine Start t s"

definition spawn :: "tid \<Rightarrow> task_options \<Rightarrow> store \<Rightarrow> run \<times> tid option" where
  "spawn t opts s =
     (case tasks s t of
        None \<Rightarrow> ((Threw (NoControls t), s), None)
      | Some T \<Rightarrow>
          if state T \<noteq> Running then ((Threw CannotSpawn, s), None)
          else
            (let opts' = (if resourceScope opts = None then opts\<lparr>resourceScope := Some t\<rparr>
                          else opts);
                 (child, s1) = createTask opts' s;
                 r = seq (link t child s1) (start child)
             in (r, if fst r = Normal then Some child else None)))"

subsection \<open>Programs: what the users of a task do to it\<close>

text \<open>
  A task is made and started by the root runner or by \<open>spawn\<close>; its controller calls
  \<open>resolve\<close>, \<open>reject\<close> or \<open>halted\<close>; anybody may call \<open>halt\<close>, \<open>ensure\<close> and
  \<open>addTrapper\<close>. \<open>link\<close>, \<open>unlink\<close>, \<open>trap\<close>, \<open>resume\<close> and \<open>haltChildren\<close> are called
  by task.ts itself only. A call that throws leaves the store as it is at the throw.
\<close>

datatype command =
  Create task_options
  | Spawn tid task_options
  | DoResolve tid val
  | DoReject tid err
  | DoHalted tid
  | DoHalt tid
  | DoEnsure tid nat
  | DoAddTrapper tid nat

definition initial :: store where
  "initial = \<lparr>tasks = (\<lambda>_. None), COUNTER = 0, closures = 0, events = []\<rparr>"

fun step :: "nat \<Rightarrow> command \<Rightarrow> store \<Rightarrow> store" where
  "step n (Create opts) s = (case createTask opts s of (t, s1) \<Rightarrow> snd (start t s1))"
| "step n (Spawn t opts) s = snd (fst (spawn t opts s))"
| "step n (DoResolve t v) s = snd (exec n (CallResolve t v) s)"
| "step n (DoReject t e) s = snd (exec n (CallReject t (Some e)) s)"
| "step n (DoHalted t) s = snd (exec n (CallHalted t) s)"
| "step n (DoHalt t) s = snd (exec n (CallHalt t) s)"
| "step n (DoEnsure t h) s = ensure t h s"
| "step n (DoAddTrapper t k) s = addTrapper t (OtherTrapper k) s"

definition program :: "nat \<Rightarrow> command list \<Rightarrow> store" where
  "program n cmds = foldl (\<lambda>s c. step n c s) initial cmds"

section \<open>Function bodies (src/controller/function-controller.ts)\<close>

text \<open>
  \<open>FunctionContoller\<close> keeps the function and, once \<open>start\<close> has run it, the controller
  made for what it returned. What a call of \<open>this.operation(this.task)\<close> does is given
  by \<open>body_result\<close>: it throws, or returns a promise, or returns something else, which
  is taken for an iterator. The calls made on the task and on the inner controller are
  returned as a list.
\<close>

datatype body_result = BodyThrows err | BodyPromise nat | BodyIterator nat

datatype inner_controller = PromiseController nat | IteratorController nat

datatype controller_call =
  TaskReject err
  | InnerStart inner_controller
  | InnerHalt inner_controller

datatype controller_error = HaltBeforeStart

record function_controller =
  operation :: body_result
  controller :: "inner_controller option"

definition newFunctionContoller :: "body_result \<Rightarrow> function_controller" where
  "newFunctionContoller op = \<lparr>operation = op, controller = None\<rparr>"

definition functionStart :: "function_controller \<Rightarrow> function_controller \<times> controller_call list" where
  "functionStart fc =
     (case operation fc of
        BodyThrows e \<Rightarrow> (fc, [TaskReject e])
      | BodyPromise p \<Rightarrow>
          (fc\<lparr>controller := Some (PromiseController p)\<rparr>, [InnerStart (PromiseController p)])
      | BodyIterator i \<Rightarrow>
          (fc\<lparr>controller := Some (IteratorController i)\<rparr>, [InnerStart (IteratorController i)]))"

text \<open>
  \<open>halt\<close> is \<open>async\<close>: the error it throws is the rejection of the promise it returns,
  here the left answer.
\<close>

definition functionHalt :: "function_controller \<Rightarrow> controller_error + controller_call list" where
  "functionHalt fc =
     (case controller fc of
        Some c \<Rightarrow> Inr [InnerHalt c]
      | None \<Rightarrow> Inl HaltBeforeStart)"

section \<open>Frames (lib/run/frame.ts)\<close>

text \<open>
  A value is a number or \<open>undefined\<close> (\<open>None\<close>). The body of a frame is an iterator: a
  state and the three methods of the protocol, of which \<open>throw\<close> and \<open>return\<close> may be
  missing. A call of a method yields an instruction, returns (\<open>done: true\<close>) or throws.
  An instruction either settles at once with a result (an instruction that throws
  settles with \<open>Err\<close>, by the \<open>catch\<close> around it) or suspends the frame until it is
  settled from outside or interrupted.
\<close>

type_synonym jsval = "val option"

datatype 'a outcome_result = Ok 'a | Err err

datatype instruction = Settles "jsval outcome_result" | Suspends

datatype iter_step = Yield instruction | Return jsval | Raise err

record 'i iterator =
  pos :: 'i
  nextMethod :: "'i \<Rightarrow> jsval \<Rightarrow> iter_step \<times> 'i"
  throwMethod :: "('i \<Rightarrow> err \<Rightarrow> iter_step \<times> 'i) option"
  returnMethod :: "('i \<Rightarrow> jsval \<Rightarrow> iter_step \<times> 'i) option"

text \<open>\<open>$next(value)\<close>, \<open>$throw(error)\<close>, \<open>$abort()\<close>, and the entries of \<open>thunks\<close>.\<close>

datatype thunk_fn = NextFn jsval | ThrowFn err | AbortFn

datatype thunk = Thunk thunk_fn | DoneThunk "jsval outcome_result"

datatype frame_exit = ExitResult "jsval outcome_result" | ExitCrashed err | ExitAborted

text \<open>
  Where the frame stands between two events: not entered yet, inside an instruction
  that has not settled (\<open>frame.interrupt\<close> then resumes the loop), left with its exit,
  or broken because \<open>thunks.pop()\<close> found nothing.
\<close>

datatype frame_status = Created | Suspended | Exited frame_exit | Broken

record 'i frame =
  iter :: "'i iterator"
  thunks :: "thunk list"
  aborted :: bool
  crash :: "err option"
  status :: frame_status

definition newFrame :: "'i iterator \<Rightarrow> 'i frame" where
  "newFrame it = \<lparr>iter = it, thunks = [Thunk (NextFn None)], aborted = False, crash = None,
                   status = Created\<rparr>"

text \<open>\<open>getNext(iterator())\<close> for the three kinds of \<open>getNext\<close>.\<close>

definition getNext :: "thunk_fn \<Rightarrow> 'i iterator \<Rightarrow> iter_step \<times> 'i iterator" where
  "getNext g it =
     (case g of
        NextFn v \<Rightarrow> (case nextMethod it (pos it) v of (r, p) \<Rightarrow> (r, it\<lparr>pos := p\<rparr>))
      | ThrowFn e \<Rightarrow>
          (case throwMethod it of
             Some m \<Rightarrow> (case m (pos it) e of (r, p) \<Rightarrow> (r, it\<lparr>pos := p\<rparr>))
           | None \<Rightarrow> (Raise e, it))
      | AbortFn \<Rightarrow>
          (case returnMethod it of
             Some m \<Rightarrow> (case m (pos it) None of (r, p) \<Rightarrow> (r, it\<lparr>pos := p\<rparr>))
           | None \<Rightarrow> (Return None, it)))"

text \<open>The exit, from the result the loop ended with (lines 78 to 90).\<close>

definition exitOf :: "jsval outcome_result \<Rightarrow> 'i frame \<Rightarrow> frame_exit" where
  "exitOf r f =
     (case r of
        Err e \<Rightarrow> ExitResult r
      | Ok v \<Rightarrow>
          (case crash f of
             Some e \<Rightarrow> ExitCrashed e
           | None \<Rightarrow> if aborted f then ExitAborted else ExitResult r))"

text \<open>
  The loop \<open>while (!thunk.done)\<close>, from \<open>thunk = thunks.pop()\<close> on: \<open>unshift\<close> puts a
  thunk in front, \<open>pop\<close> takes the last. It runs until an instruction suspends, the
  frame exits, or the budget of steps ends (\<open>None\<close>): a body may go on forever. The
  draining of the children and \<open>setResults\<close>, which follow, do not change the exit.
\<close>

fun loop :: "nat \<Rightarrow> 'i frame \<Rightarrow> 'i frame option" where
  "loop 0 f = None"
| "loop (Suc n) f =
     (if thunks f = [] then Some (f\<lparr>status := Broken\<rparr>)
      else
        (let rest = butlast (thunks f) in
         case last (thunks f) of
           DoneThunk r \<Rightarrow> Some (f\<lparr>thunks := rest, status := Exited (exitOf r f)\<rparr>)
         | Thunk g \<Rightarrow>
             (case getNext g (iter f) of
                (Raise e, it) \<Rightarrow> loop n (f\<lparr>iter := it, thunks := DoneThunk (Err e) # rest\<rparr>)
              | (Return v, it) \<Rightarrow> loop n (f\<lparr>iter := it, thunks := DoneThunk (Ok v) # rest\<rparr>)
              | (Yield (Settles (Ok v)), it) \<Rightarrow>
                  loop n (f\<lparr>iter := it, thunks := Thunk (NextFn v) # rest\<rparr>)
              | (Yield (Settles (Err e)), it) \<Rightarrow>
                  loop n (f\<lparr>iter := it, thunks := Thunk (ThrowFn e) # rest\<rparr>)
              | (Yield Suspends, it) \<Rightarrow>
                  Some (f\<lparr>iter := it, thunks := rest, status := Suspended\<rparr>))))"

text \<open>\<open>frame.enter()\<close> starts the loop of a frame that has not been entered.\<close>

definition enter :: "nat \<Rightarrow> 'i frame \<Rightarrow> 'i frame option" where
  "enter n f = (if status f = Created then loop n f else Some f)"

text \<open>The instruction the frame is suspended in settles with \<open>r\<close>.\<close>

definition settled :: "nat \<Rightarrow> jsval outcome_result \<Rightarrow> 'i frame \<Rightarrow> 'i frame option" where
  "settled n r f =
     (if status f = Suspended then
        loop n (f\<lparr>thunks := Thunk (case r of Ok v \<Rightarrow> NextFn v | Err e \<Rightarrow> ThrowFn e) # thunks f\<rparr>)
      else Some f)"

text \<open>
  \<open>frame.interrupt()\<close>: \<open>() => {}\<close> until the frame is entered; in a suspended frame it
  ends the wait with \<open>{type: "interrupted"}\<close>, no thunk is added and the loop goes on.
  After the exit the continuation it holds has been used, and the model takes the call
  to do nothing.
\<close>

definition interrupt :: "nat \<Rightarrow> 'i frame \<Rightarrow> 'i frame option" where
  "interrupt n f = (if status f = Suspended then loop n f else Some f)"

definition destroy :: "nat \<Rightarrow> err option \<Rightarrow> 'i frame \<Rightarrow> 'i frame option" where
  "destroy n reason f =
     (if \<not> aborted f then
        interrupt n (f\<lparr>aborted := True, crash := reason, thunks := Thunk AbortFn # thunks f\<rparr>)
      else Some f)"

section \<open>Notions used in the statements\<close>



text \<open>What the state of a task says about its fields, at any moment.\<close>

definition taskInv :: "task \<Rightarrow> bool" where
  "taskInv T =
     ((isTerminal (state T) \<longrightarrow> children T = [])
      \<and> (state T = Pending \<or> state T = Running \<longrightarrow> result T = None \<and> error T = None)
      \<and> (state T = Completing \<or> state T = Completed \<longrightarrow> result T \<noteq> None \<and> error T = None)
      \<and> (state T = Erroring \<or> state T = Errored \<longrightarrow> result T = None \<and> error T \<noteq> None)
      \<and> (result T = None \<or> error T = None)
      \<and> (deferred T \<noteq> None \<longrightarrow>
            (state T = Completed \<and> deferred T = Some (Fulfilled (result T)))
          \<or> (state T = Halted \<and> deferred T = Some (Rejected (Some HaltError)))
          \<or> (state T = Errored \<and> deferred T = Some (Rejected (error T)))))"

definition wellFormed :: "store \<Rightarrow> bool" where
  "wellFormed s = (\<forall>t T. tasks s t = Some T \<longrightarrow> taskInv T)"

text \<open>The fields of a task of a store, \<open>None\<close> when there is no such task.\<close>

definition taskState :: "store \<Rightarrow> tid \<Rightarrow> task_state option" where
  "taskState s t = map_option state (tasks s t)"

definition taskChildren :: "store \<Rightarrow> tid \<Rightarrow> tid list option" where
  "taskChildren s t = map_option children (tasks s t)"



definition taskDeferred :: "store \<Rightarrow> tid \<Rightarrow> settled option option" where
  "taskDeferred s t = map_option deferred (tasks s t)"


text \<open>Options and programs used as examples.\<close>

definition plainOptions :: task_options where
  "plainOptions =
     \<lparr>resourceScope = None, blockParent = False, ignoreChildErrors = False, ignoreError = False\<rparr>"

definition blockingOptions :: task_options where
  "blockingOptions =
     \<lparr>resourceScope = None, blockParent = True, ignoreChildErrors = False, ignoreError = False\<rparr>"

text \<open>A task with a child that resolves, and whose child then resolves too.\<close>

definition familyCompletes :: "command list" where
  "familyCompletes = [Create plainOptions, Spawn 1 blockingOptions, DoResolve 1 9, DoResolve 2 7]"



text \<open>
  The exits that the spec allows a destroyed frame, and the one the code adds: with the
  reason \<open>reason\<close> of \<open>destroy\<close>, \<open>crashed\<close> with that reason when there is one,
  \<open>aborted\<close> when there is none, or the error the body ended with; never a value.
\<close>

fun exitOfDestroyed :: "err option \<Rightarrow> frame_exit \<Rightarrow> bool" where
  "exitOfDestroyed reason (ExitResult (Err e)) = True"
| "exitOfDestroyed reason (ExitResult (Ok v)) = False"
| "exitOfDestroyed reason (ExitCrashed e) = (reason = Some e)"
| "exitOfDestroyed reason ExitAborted = (reason = None)"

text \<open>
  Two bodies. Both suspend in their first instruction. \<open>cleanupYields\<close> is
  \<open>try { yield suspend } finally { yield five }\<close>: on \<open>return\<close> it yields one more
  instruction, which settles with 5, and returns at the next call.
  \<open>cleanupThrows\<close> is \<open>try { yield suspend } finally { throw error7 }\<close>.
\<close>

definition cleanupYields :: "nat iterator" where
  "cleanupYields =
     \<lparr>pos = 0,
      nextMethod = (\<lambda>p v. if p = 0 then (Yield Suspends, 1) else (Return v, 3)),
      throwMethod = Some (\<lambda>p e. (Raise e, 3)),
      returnMethod = Some (\<lambda>p v. if p = 1 then (Yield (Settles (Ok (Some 5))), 2)
                                   else (Return v, 3))\<rparr>"

definition cleanupThrows :: "nat iterator" where
  "cleanupThrows =
     \<lparr>pos = 0,
      nextMethod = (\<lambda>p v. if p = 0 then (Yield Suspends, 1) else (Return v, 3)),
      throwMethod = None,
      returnMethod = Some (\<lambda>p v. (Raise (OperationError 7), 3))\<rparr>"

text \<open>A body that returns 3 at once, with no \<open>return\<close> method.\<close>

definition returnsAtOnce :: "nat iterator" where
  "returnsAtOnce =
     \<lparr>pos = 0, nextMethod = (\<lambda>p v. (Return (Some 3), 1)), throwMethod = None,
      returnMethod = None\<rparr>"

text \<open>The status of a frame after it is entered and then destroyed.\<close>

definition statusAfterDestroy :: "nat \<Rightarrow> nat iterator \<Rightarrow> err option \<Rightarrow> frame_status option" where
  "statusAfterDestroy n it reason =
     map_option status (Option.bind (enter n (newFrame it)) (destroy n reason))"

text \<open>
  What a call may do to the rest of a store: the counter of ids stays, the counter of
  closures and the list of events grow, no task appears or disappears, and the children
  of a task only get fewer; its options stay.
\<close>

definition extends :: "store \<Rightarrow> store \<Rightarrow> bool" where
  "extends s s' =
     (COUNTER s' = COUNTER s \<and> closures s \<le> closures s'
      \<and> (\<exists>new. events s' = events s @ new)
      \<and> (\<forall>u. (tasks s' u = None) = (tasks s u = None))
      \<and> (\<forall>u U U'. tasks s u = Some U \<longrightarrow> tasks s' u = Some U' \<longrightarrow>
            set (children U') \<subseteq> set (children U) \<and> options U' = options U))"

text \<open>The test of the loop of \<open>haltChildren\<close> on a child, in a store.\<close>

definition haltable :: "store \<Rightarrow> bool \<Rightarrow> tid \<Rightarrow> bool" where
  "haltable s force c =
     (case tasks s c of None \<Rightarrow> False | Some C \<Rightarrow> force \<or> \<not> blockParent (options C))"

text \<open>A task with two children, the second with \<open>blockParent\<close>.\<close>

definition family :: "command list" where
  "family = [Create plainOptions, Spawn 1 plainOptions, Spawn 1 blockingOptions]"

text \<open>Identifiers handed out so far are at most \<open>COUNTER\<close>.\<close>

definition allocated :: "store \<Rightarrow> tid \<Rightarrow> bool" where
  "allocated s t =
     (t \<le> COUNTER s \<and> (case tasks s t of None \<Rightarrow> True | Some T \<Rightarrow> \<forall>c\<in>set (children T). c \<le> COUNTER s))"

definition allAllocated :: "store \<Rightarrow> bool" where
  "allAllocated s = (\<forall>t. tasks s t \<noteq> None \<longrightarrow> allocated s t)"


text \<open>
  The events of a task itself: its state transitions and the calls of its ensure
  handlers. \<open>frozen t T0 evs s\<close>: in \<open>s\<close>, task \<open>t\<close> has the state, result, error,
  deferred and ensure handlers of \<open>T0\<close>, and its own events so far are \<open>evs\<close>.
\<close>

fun ownEvent :: "tid \<Rightarrow> event \<Rightarrow> bool" where
  "ownEvent t (StateEvent u a b) = (u = t)"
| "ownEvent t (HandlerCalled u h) = (u = t)"
| "ownEvent t _ = False"

definition frozen :: "tid \<Rightarrow> task \<Rightarrow> event list \<Rightarrow> store \<Rightarrow> bool" where
  "frozen t T0 evs s =
     (\<exists>T. tasks s t = Some T \<and> state T = state T0 \<and> result T = result T0 \<and> error T = error T0
        \<and> deferred T = deferred T0 \<and> ensureHandlers T = ensureHandlers T0
        \<and> filter (ownEvent t) (events s) = evs)"




text \<open>
  \<open>halting t s\<close>: task \<open>t\<close> is halting or halted. \<open>haltDone s t\<close>: there is nothing left
  for \<open>halt\<close> to do on \<open>t\<close>, which is not in a state that the state machine lets halt.
\<close>

definition halting :: "tid \<Rightarrow> store \<Rightarrow> bool" where
  "halting t s = (\<exists>T. tasks s t = Some T \<and> (state T = Halting \<or> state T = Halted))"

definition haltDone :: "store \<Rightarrow> tid \<Rightarrow> bool" where
  "haltDone s t =
     (case tasks s t of
        None \<Rightarrow> True
      | Some T \<Rightarrow> state T \<noteq> Running \<and> state T \<noteq> Completing \<and> state T \<noteq> Erroring)"

text \<open>
  \<open>reject(error: Error)\<close> takes an error; the only call of it in task.ts hands on the
  \<open>error\<close> field of an errored child.
\<close>

fun okCall :: "call \<Rightarrow> bool" where
  "okCall (CallReject t e) = (e \<noteq> None)"
| "okCall _ = True"

section \<open>Basic facts about the store\<close>

lemma tasks_upd [simp]:
  "tasks (upd t f s) u = (if u = t then map_option f (tasks s t) else tasks s u)"
  by (auto simp: upd_def split: option.splits)

lemma events_upd [simp]: "events (upd t f s) = events s"
  and closures_upd [simp]: "closures (upd t f s) = closures s"
  and COUNTER_upd [simp]: "COUNTER (upd t f s) = COUNTER s"
  by (auto simp: upd_def split: option.splits)

lemma tasks_emit [simp]: "tasks (emit e s) = tasks s"
  and events_emit [simp]: "events (emit e s) = events s @ [e]"
  and closures_emit [simp]: "closures (emit e s) = closures s"
  and COUNTER_emit [simp]: "COUNTER (emit e s) = COUNTER s"
  by (auto simp: emit_def)

lemma seq_cases:
  "(\<And>s'. r = (Normal, s') \<Longrightarrow> P (snd (f s'))) \<Longrightarrow> (fst r \<noteq> Normal \<Longrightarrow> P (snd r)) \<Longrightarrow> P (snd (seq r f))"
  by (cases r) (auto simp: seq_def split: outcome.splits)

lemma seq_inv: "P (snd r) \<Longrightarrow> (\<And>s'. P s' \<Longrightarrow> P (snd (f s'))) \<Longrightarrow> P (snd (seq r f))"
  by (cases r) (auto simp: seq_def split: outcome.splits)

lemma stateMachine_Normal:
  "stateMachine ev t s = (Normal, s') \<Longrightarrow>
     \<exists>T st. tasks s t = Some T \<and> transitions ev (state T) = Some st
        \<and> s' = emit (StateEvent t (state T) st) (upd t (\<lambda>T. T\<lparr>state := st\<rparr>) s)"
  by (auto simp: stateMachine_def split: option.splits)

lemma stateMachine_not_Normal:
  "fst (stateMachine ev t s) \<noteq> Normal \<Longrightarrow> snd (stateMachine ev t s) = s"
  by (auto simp: stateMachine_def split: option.splits)

lemma taskInv_state:
  "taskInv T =
     (case state T of
        Pending \<Rightarrow> result T = None \<and> error T = None \<and> deferred T = None
      | Running \<Rightarrow> result T = None \<and> error T = None \<and> deferred T = None
      | Completing \<Rightarrow> result T \<noteq> None \<and> error T = None \<and> deferred T = None
      | Completed \<Rightarrow> result T \<noteq> None \<and> error T = None \<and> children T = []
          \<and> (deferred T = None \<or> deferred T = Some (Fulfilled (result T)))
      | Erroring \<Rightarrow> result T = None \<and> error T \<noteq> None \<and> deferred T = None
      | Errored \<Rightarrow> result T = None \<and> error T \<noteq> None \<and> children T = []
          \<and> (deferred T = None \<or> deferred T = Some (Rejected (error T)))
      | Halting \<Rightarrow> (result T = None \<or> error T = None) \<and> deferred T = None
      | Halted \<Rightarrow> (result T = None \<or> error T = None) \<and> children T = []
          \<and> (deferred T = None \<or> deferred T = Some (Rejected (Some HaltError))))"
  by (cases "state T") (auto simp: taskInv_def isTerminal_def)

lemma transitions_Finish:
  "transitions Finish a = Some b \<Longrightarrow>
     a = Completing \<and> b = Completed \<or> a = Erroring \<and> b = Errored \<or> a = Halting \<and> b = Halted"
  by (cases a) auto

lemma transitions_Halt: "transitions Halt a = Some b \<Longrightarrow> (a = Running \<or> a = Completing \<or> a = Erroring) \<and> b = Halting"
  by (cases a) auto

lemma transitions_Start: "transitions Start a = Some b \<Longrightarrow> a = Pending \<and> b = Running"
  by (cases a) auto

lemma transitions_Resolve: "transitions Resolve a = Some b \<Longrightarrow> a = Running \<and> b = Completing"
  by (cases a) auto

lemma transitions_Reject: "transitions Reject a = Some b \<Longrightarrow> a = Running \<and> b = Erroring"
  by (cases a) auto

lemma wellFormed_emit [simp]: "wellFormed (emit e s) = wellFormed s"
  and wellFormed_closures [simp]: "wellFormed (s\<lparr>closures := k\<rparr>) = wellFormed s"
  and wellFormed_events [simp]: "wellFormed (s\<lparr>events := es\<rparr>) = wellFormed s"
  by (simp_all add: wellFormed_def)

lemma wellFormed_upd:
  "wellFormed s \<Longrightarrow> (\<And>T. tasks s t = Some T \<Longrightarrow> taskInv T \<Longrightarrow> taskInv (f T)) \<Longrightarrow> wellFormed (upd t f s)"
  by (auto simp: wellFormed_def)

lemma taskInv_same:
  "taskInv T \<Longrightarrow> state T' = state T \<Longrightarrow> result T' = result T \<Longrightarrow> error T' = error T
     \<Longrightarrow> deferred T' = deferred T \<Longrightarrow> (children T = [] \<Longrightarrow> children T' = []) \<Longrightarrow> taskInv T'"
  by (auto simp: taskInv_def)

lemma wellFormed_addTrapper: "wellFormed s \<Longrightarrow> wellFormed (addTrapper t tr s)"
  unfolding addTrapper_def by (rule wellFormed_upd) (auto elim!: taskInv_same)

lemma wellFormed_removeTrapper: "wellFormed s \<Longrightarrow> wellFormed (removeTrapper t tr s)"
  unfolding removeTrapper_def by (rule wellFormed_upd) (auto elim!: taskInv_same)

lemma wellFormed_ensure: "wellFormed s \<Longrightarrow> wellFormed (ensure t h s)"
  unfolding ensure_def by (rule wellFormed_upd) (auto elim!: taskInv_same)

lemma wellFormed_callHandlers: "wellFormed s \<Longrightarrow> wellFormed (callHandlers t s)"
  by (auto simp: callHandlers_def split: option.splits)

lemma wellFormed_clear:
  "wellFormed s \<Longrightarrow> wellFormed (upd t (\<lambda>T. T\<lparr>ensureHandlers := [], trappers := []\<rparr>) s)"
  by (rule wellFormed_upd) (auto elim!: taskInv_same)

lemma wellFormed_settle: "wellFormed s \<Longrightarrow> wellFormed (settle t s)"
  unfolding settle_def by (rule wellFormed_upd) (auto simp: taskInv_state)

lemma wellFormed_unlink: "wellFormed s \<Longrightarrow> wellFormed (snd (unlink p c s))"
  by (auto simp: unlink_def split: option.splits
      intro!: wellFormed_upd wellFormed_removeTrapper elim!: taskInv_same)

lemma transitions_cases:
  "transitions ev a = Some b \<Longrightarrow>
     (ev = Start \<and> a = Pending \<and> b = Running)
   \<or> (ev = Resolve \<and> a = Running \<and> b = Completing)
   \<or> (ev = Reject \<and> a = Running \<and> b = Erroring)
   \<or> (ev = Halt \<and> (a = Running \<or> a = Completing \<or> a = Erroring) \<and> b = Halting)
   \<or> (ev = Finish \<and> (a = Completing \<and> b = Completed \<or> a = Erroring \<and> b = Errored \<or> a = Halting \<and> b = Halted))"
  by (cases ev; cases a) auto

lemma wellFormedD: "wellFormed s \<Longrightarrow> tasks s t = Some T \<Longrightarrow> taskInv T"
  by (simp add: wellFormed_def)

lemma wellFormed_transition:
  assumes wf: "wellFormed s" and T: "tasks s t = Some T" and inv: "taskInv (f (T\<lparr>state := st\<rparr>))"
  shows "wellFormed (upd t f (emit e (upd t (\<lambda>T. T\<lparr>state := st\<rparr>) s)))"
  unfolding wellFormed_def using wellFormedD[OF wf] T inv by (auto split: if_splits)

lemma wellFormed_finish:
  assumes "wellFormed s" "tasks s t = Some T" "children T = []"
  shows "wellFormed (snd (stateMachine Finish t s))"
proof (cases "fst (stateMachine Finish t s) = Normal")
  case False
  then show ?thesis using assms by (simp add: stateMachine_not_Normal)
next
  case True
  then obtain s' where s': "stateMachine Finish t s = (Normal, s')"
    by (cases "stateMachine Finish t s") auto
  from stateMachine_Normal[OF s'] assms(2) obtain st where
    st: "transitions Finish (state T) = Some st"
    and eq: "s' = emit (StateEvent t (state T) st) (upd t (\<lambda>T. T\<lparr>state := st\<rparr>) s)"
    by auto
  have "taskInv T" using assms(1,2) by (rule wellFormedD)
  with transitions_Finish[OF st] assms(3) have "taskInv (T\<lparr>state := st\<rparr>)"
    by (auto simp: taskInv_state)
  then have "wellFormed (upd t (\<lambda>T. T\<lparr>state := st\<rparr>) s)"
    using assms(1,2) by (auto simp: wellFormed_def)
  then show ?thesis by (simp add: s' eq)
qed

lemma wellFormed_start_halt:
  assumes "wellFormed s" "ev = Start \<or> ev = Halt"
  shows "wellFormed (snd (stateMachine ev t s))"
proof (cases "fst (stateMachine ev t s) = Normal")
  case False
  then show ?thesis using assms by (simp add: stateMachine_not_Normal)
next
  case True
  then obtain s' where s': "stateMachine ev t s = (Normal, s')"
    by (cases "stateMachine ev t s") auto
  from stateMachine_Normal[OF s'] obtain T st where T: "tasks s t = Some T"
    and st: "transitions ev (state T) = Some st"
    and eq: "s' = emit (StateEvent t (state T) st) (upd t (\<lambda>T. T\<lparr>state := st\<rparr>) s)"
    by auto
  have "taskInv T" using assms(1) T by (rule wellFormedD)
  moreover have "st = Running \<and> state T = Pending \<or>
      st = Halting \<and> (state T = Running \<or> state T = Completing \<or> state T = Erroring)"
    using st assms(2) by (auto dest: transitions_Halt transitions_Start)
  ultimately have "taskInv (T\<lparr>state := st\<rparr>)"
    by (auto simp: taskInv_state)
  then have "wellFormed (upd t (\<lambda>T. T\<lparr>state := st\<rparr>) s)"
    using assms(1) T by (auto simp: wellFormed_def)
  then show ?thesis by (simp add: s' eq)
qed

lemma wellFormed_resolved:
  assumes "wellFormed s" "stateMachine Resolve t s = (Normal, s')"
  shows "wellFormed (upd t (\<lambda>T. T\<lparr>result := Some v\<rparr>) s')"
proof -
  from stateMachine_Normal[OF assms(2)] obtain T st where T: "tasks s t = Some T"
    and st: "transitions Resolve (state T) = Some st"
    and eq: "s' = emit (StateEvent t (state T) st) (upd t (\<lambda>T. T\<lparr>state := st\<rparr>) s)"
    by auto
  have "taskInv T" using assms(1) T by (rule wellFormedD)
  with transitions_Resolve[OF st] have "taskInv (T\<lparr>state := st, result := Some v\<rparr>)"
    by (auto simp: taskInv_state)
  then show ?thesis unfolding eq by (intro wellFormed_transition[OF assms(1) T]) simp
qed

lemma wellFormed_rejected:
  assumes "wellFormed s" "stateMachine Reject t s = (Normal, s')" "e \<noteq> None"
  shows "wellFormed (upd t (\<lambda>T. T\<lparr>result := None, error := e\<rparr>) s')"
proof -
  from stateMachine_Normal[OF assms(2)] obtain T st where T: "tasks s t = Some T"
    and st: "transitions Reject (state T) = Some st"
    and eq: "s' = emit (StateEvent t (state T) st) (upd t (\<lambda>T. T\<lparr>state := st\<rparr>) s)"
    by auto
  have "taskInv T" using assms(1) T by (rule wellFormedD)
  with transitions_Reject[OF st] assms(3) have "taskInv (T\<lparr>state := st, result := None, error := e\<rparr>)"
    by (auto simp: taskInv_state)
  then show ?thesis unfolding eq by (intro wellFormed_transition[OF assms(1) T]) simp
qed

lemmas seq_wf = seq_inv[where P=wellFormed]
lemmas seq_cases_wf = seq_cases[where P=wellFormed]

lemma wellFormed_resume:
  assumes IH: "\<And>c s. wellFormed s \<Longrightarrow> okCall c \<Longrightarrow> wellFormed (snd (call c s))"
  shows "wellFormed s \<Longrightarrow> wellFormed (snd (resume call t s))"
  unfolding resume_def
  by (auto split: option.splits
      intro!: seq_wf IH wellFormed_finish wellFormed_callHandlers wellFormed_settle wellFormed_clear)

lemma wellFormed_callTrappers:
  assumes IH: "\<And>c s. wellFormed s \<Longrightarrow> okCall c \<Longrightarrow> wellFormed (snd (call c s))"
  shows "wellFormed s \<Longrightarrow> wellFormed (snd (callTrappers call t i s))"
  unfolding callTrappers_def
  by (auto split: option.splits trapper.splits intro!: seq_wf IH)

lemma wellFormed_loop:
  assumes IH: "\<And>c s. wellFormed s \<Longrightarrow> okCall c \<Longrightarrow> wellFormed (snd (call c s))"
  shows "wellFormed s \<Longrightarrow> wellFormed (snd (haltChildrenLoop call t force cs s))"
  by (induction cs) (auto split: option.splits intro!: IH wellFormed_addTrapper)

lemma wellFormed_haltChildren:
  assumes IH: "\<And>c s. wellFormed s \<Longrightarrow> okCall c \<Longrightarrow> wellFormed (snd (call c s))"
  shows "wellFormed s \<Longrightarrow> wellFormed (snd (haltChildren call t force s))"
  unfolding haltChildren_def
  by (auto split: option.splits intro!: wellFormed_loop IH)

lemma wellFormed_halt:
  assumes IH: "\<And>c s. wellFormed s \<Longrightarrow> okCall c \<Longrightarrow> wellFormed (snd (call c s))"
  shows "wellFormed s \<Longrightarrow> wellFormed (snd (halt call t s))"
  using IH[of s "CallControllerHalt t"]
  by (auto simp: halt_def split: prod.splits outcome.splits)

lemma wellFormed_controllerHalt:
  assumes IH: "\<And>c s. wellFormed s \<Longrightarrow> okCall c \<Longrightarrow> wellFormed (snd (call c s))"
  shows "wellFormed s \<Longrightarrow> wellFormed (snd (controllerHalt call t s))"
  unfolding controllerHalt_def
  by (auto split: option.splits intro!: IH)

lemma wellFormed_halted:
  assumes IH: "\<And>c s. wellFormed s \<Longrightarrow> okCall c \<Longrightarrow> wellFormed (snd (call c s))"
  shows "wellFormed s \<Longrightarrow> wellFormed (snd (halted call t s))"
  unfolding halted_def
  by (auto intro!: seq_wf IH wellFormed_start_halt)

lemma wellFormed_resolve:
  assumes IH: "\<And>c s. wellFormed s \<Longrightarrow> okCall c \<Longrightarrow> wellFormed (snd (call c s))"
  shows "wellFormed s \<Longrightarrow> wellFormed (snd (resolve call t v s))"
  unfolding resolve_def
  by (rule seq_cases_wf) (auto intro!: seq_wf IH wellFormed_resolved simp: stateMachine_not_Normal)

lemma wellFormed_reject:
  assumes IH: "\<And>c s. wellFormed s \<Longrightarrow> okCall c \<Longrightarrow> wellFormed (snd (call c s))"
  shows "wellFormed s \<Longrightarrow> e \<noteq> None \<Longrightarrow> wellFormed (snd (reject call t e s))"
  unfolding reject_def
  by (rule seq_cases_wf) (auto intro!: seq_wf IH wellFormed_rejected simp: stateMachine_not_Normal)

lemma wellFormed_trap:
  assumes IH: "\<And>c s. wellFormed s \<Longrightarrow> okCall c \<Longrightarrow> wellFormed (snd (call c s))"
  shows "wellFormed s \<Longrightarrow> wellFormed (snd (trap call p child s))"
proof -
  assume wf: "wellFormed s"
  have err: "\<exists>y. error C = Some y" if "tasks s child = Some C" "state C = Errored" for C
    using wellFormedD[OF wf that(1)] that(2) by (simp add: taskInv_state)
  show ?thesis using wf
    by (auto simp: trap_def split: option.splits intro!: seq_wf IH wellFormed_unlink dest: err)
qed

lemma wellFormed_exec: "wellFormed s \<Longrightarrow> okCall c \<Longrightarrow> wellFormed (snd (exec n c s))"
proof (induction n arbitrary: c s)
  case 0
  then show ?case by simp
next
  case (Suc n)
  then show ?case
    by (cases c)
      (simp_all add: wellFormed_resume wellFormed_callTrappers wellFormed_haltChildren wellFormed_halt
        wellFormed_controllerHalt wellFormed_halted wellFormed_resolve wellFormed_reject wellFormed_trap)
qed


lemma wellFormed_link:
  assumes "wellFormed s" "\<And>P. tasks s p = Some P \<Longrightarrow> \<not> isTerminal (state P)"
  shows "wellFormed (snd (link p c s))"
proof -
  have "wellFormed (upd p (\<lambda>T. T\<lparr>children := children T @ [c]\<rparr>) (addTrapper c (ParentTrap p) s))"
  proof (rule wellFormed_upd[OF wellFormed_addTrapper[OF assms(1)]])
    fix T assume T: "tasks (addTrapper c (ParentTrap p) s) p = Some T" and inv: "taskInv T"
    from T obtain P where "tasks s p = Some P" "state T = state P"
      by (auto simp: addTrapper_def split: if_splits)
    with assms(2) have "\<not> isTerminal (state T)" by simp
    with inv show "taskInv (T\<lparr>children := children T @ [c]\<rparr>)"
      by (auto simp: taskInv_def)
  qed
  then show ?thesis using assms(1) by (simp add: link_def split: option.splits)
qed

lemma wellFormed_start: "wellFormed s \<Longrightarrow> wellFormed (snd (start t s))"
  by (simp add: start_def wellFormed_start_halt)

lemma wellFormed_createTask: "wellFormed s \<Longrightarrow> wellFormed (snd (createTask opts s))"
  by (auto simp: createTask_def wellFormed_def Let_def taskInv_state)

lemma tasks_createTask:
  "tasks (snd (createTask opts s)) t = Some T \<Longrightarrow> tasks s t = Some T \<or> state T = Pending"
  by (auto simp: createTask_def Let_def split: if_splits)

lemma wellFormed_spawn: "wellFormed s \<Longrightarrow> wellFormed (snd (fst (spawn t opts s)))"
proof -
  assume wf: "wellFormed s"
  show ?thesis
  proof (cases "tasks s t")
    case None
    then show ?thesis using wf by (simp add: spawn_def)
  next
    case (Some T)
    show ?thesis
    proof (cases "state T = Running")
      case False
      then show ?thesis using wf Some by (simp add: spawn_def)
    next
      case True
      define opts' where "opts' = (if resourceScope opts = None then opts\<lparr>resourceScope := Some t\<rparr> else opts)"
      obtain child s1 where c: "createTask opts' s = (child, s1)" by (cases "createTask opts' s")
      have wf1: "wellFormed s1" using wellFormed_createTask[OF wf, of opts'] c by simp
      have "\<not> isTerminal (state P)" if "tasks s1 t = Some P" for P
        using tasks_createTask[of opts' s t P] that c Some True by (auto simp: isTerminal_def)
      then have "wellFormed (snd (link t child s1))" by (intro wellFormed_link wf1)
      then have "wellFormed (snd (seq (link t child s1) (start child)))"
        by (rule seq_wf) (rule wellFormed_start)
      then show ?thesis using Some True c by (simp add: spawn_def Let_def opts'_def)
    qed
  qed
qed

lemma wellFormed_step: "wellFormed s \<Longrightarrow> wellFormed (step n c s)"
proof (cases c)
  case (Create opts)
  assume "wellFormed s"
  then show ?thesis using Create wellFormed_start[OF wellFormed_createTask, of s _ opts]
    by (auto split: prod.splits)
qed (simp_all add: wellFormed_spawn wellFormed_exec wellFormed_ensure wellFormed_addTrapper)

lemma wellFormed_initial: "wellFormed initial"
  by (simp add: wellFormed_def initial_def)

lemma wellFormed_foldl: "wellFormed s \<Longrightarrow> wellFormed (foldl (\<lambda>s c. step n c s) s cmds)"
  by (induction cmds arbitrary: s) (simp_all add: wellFormed_step)

lemma wellFormed_program: "wellFormed (program n cmds)"
  unfolding program_def by (rule wellFormed_foldl[OF wellFormed_initial])


section \<open>What a call leaves alone\<close>

lemma extends_refl [simp]: "extends s s"
  by (simp add: extends_def)

lemma extends_trans:
  assumes a: "extends s s1" and b: "extends s1 s2"
  shows "extends s s2"
proof -
  have "set (children U') \<subseteq> set (children U) \<and> options U' = options U"
    if U: "tasks s u = Some U" and U': "tasks s2 u = Some U'" for u U U'
  proof -
    from a U obtain U1 where U1: "tasks s1 u = Some U1"
      by (cases "tasks s1 u") (auto simp: extends_def)
    from a U U1 have "set (children U1) \<subseteq> set (children U) \<and> options U1 = options U"
      unfolding extends_def by blast
    moreover from b U1 U' have "set (children U') \<subseteq> set (children U1) \<and> options U' = options U1"
      unfolding extends_def by blast
    ultimately show ?thesis by auto
  qed
  moreover have "\<exists>new. events s2 = events s @ new"
    using a b by (auto simp: extends_def)
  ultimately show ?thesis using a b unfolding extends_def by auto
qed

lemma extends_back:
  assumes "extends s s'" "tasks s' t = Some T'"
  shows "\<exists>T. tasks s t = Some T \<and> set (children T') \<subseteq> set (children T)
     \<and> options T' = options T \<and> COUNTER s' = COUNTER s"
proof -
  from assms have "(tasks s' t = None) = (tasks s t = None)"
    unfolding extends_def by blast
  with assms(2) obtain T where T: "tasks s t = Some T" by (cases "tasks s t") auto
  with assms have "set (children T') \<subseteq> set (children T) \<and> options T' = options T"
    unfolding extends_def by blast
  with T assms(1) show ?thesis by (auto simp: extends_def)
qed

lemma extends_upd:
  "(\<And>T. tasks s t = Some T \<Longrightarrow> set (children (f T)) \<subseteq> set (children T) \<and> options (f T) = options T)
     \<Longrightarrow> extends s (upd t f s)"
  by (auto simp: extends_def)

lemma extends_emit [simp]: "extends s (emit e s)"
  by (simp add: extends_def)

lemma extends_stateMachine: "extends s (snd (stateMachine ev t s))"
proof -
  have "extends s (emit e (upd t (\<lambda>T. T\<lparr>state := st\<rparr>) s))" for e st
    by (rule extends_trans[OF extends_upd extends_emit]) auto
  then show ?thesis by (simp add: stateMachine_def split: option.splits)
qed

lemma extends_addTrapper: "extends s (addTrapper t tr s)"
  unfolding addTrapper_def by (rule extends_upd) auto

lemma extends_removeTrapper: "extends s (removeTrapper t tr s)"
  unfolding removeTrapper_def by (rule extends_upd) auto

lemma extends_closures: "extends s (s\<lparr>closures := Suc (closures s)\<rparr>)"
  by (simp add: extends_def)

lemma extends_callHandlers: "extends s (callHandlers t s)"
  by (auto simp: callHandlers_def extends_def split: option.splits)

lemma extends_settle: "extends s (settle t s)"
  unfolding settle_def by (rule extends_upd) auto

lemma extends_unlink: "extends s (snd (unlink p c s))"
proof -
  have "extends s (emit e (upd p (\<lambda>T. T\<lparr>children := removeAll c (children T)\<rparr>)
      (removeTrapper c tr s)))" for e tr
    by (rule extends_trans[OF extends_removeTrapper extends_trans[OF extends_upd extends_emit]])
      auto
  then show ?thesis by (simp add: unlink_def split: option.splits)
qed

lemma seq_extends:
  "extends s (snd r) \<Longrightarrow> (\<And>s'. extends s s' \<Longrightarrow> extends s (snd (f s'))) \<Longrightarrow> extends s (snd (seq r f))"
  by (rule seq_inv[where P="extends s"])

lemma extends_step: "extends s s1 \<Longrightarrow> extends s1 s2 \<Longrightarrow> extends s s2"
  by (rule extends_trans)

lemma extends_loop:
  assumes IH: "\<And>c s. extends s (snd (call c s))"
  shows "extends s (snd (haltChildrenLoop call t force cs s))"
proof (induction cs)
  case Nil
  then show ?case by simp
next
  case (Cons a cs)
  have "extends s (snd (call (CallHalt a) (addTrapper a tr (s\<lparr>closures := Suc (closures s)\<rparr>))))" for tr
    by (rule extends_trans[OF extends_closures extends_trans[OF extends_addTrapper IH]])
  then show ?case using Cons by (auto split: option.splits)
qed

lemma extends_exec: "extends s (snd (exec n c s))"
proof (induction n arbitrary: c s)
  case 0
  then show ?case by simp
next
  case (Suc n)
  note IH = Suc.IH
  have IH': "extends s0 s1 \<Longrightarrow> extends s0 (snd (exec n c s1))" for s0 s1 c
    by (rule extends_trans[OF _ IH])
  show ?case
  proof (cases c)
    case (CallResume t)
    have "extends s (snd (resume (exec n) t s))"
      unfolding resume_def
      by (auto split: option.splits
          intro!: seq_extends extends_stateMachine IH'
            extends_trans[OF _ extends_callHandlers]
            extends_trans[OF _ extends_trans[OF extends_upd extends_settle]])
    then show ?thesis using CallResume by simp
  next
    case (CallTrappers t i)
    have "extends s (snd (callTrappers (exec n) t i s))"
      unfolding callTrappers_def
      by (auto split: option.splits trapper.splits
          intro!: seq_extends IH IH' extends_trans[OF extends_emit IH])
    then show ?thesis using CallTrappers by simp
  next
    case (CallHaltChildren t force)
    then show ?thesis by (auto simp: haltChildren_def split: option.splits intro!: extends_loop IH)
  next
    case (CallHalt t)
    then show ?thesis using IH[of s "CallControllerHalt t"]
      by (auto simp: halt_def split: prod.splits outcome.splits)
  next
    case (CallControllerHalt t)
    then show ?thesis by (auto simp: controllerHalt_def split: option.splits intro!: IH)
  next
    case (CallHalted t)
    then show ?thesis by (auto simp: halted_def intro!: seq_extends extends_stateMachine IH')
  next
    case (CallResolve t v)
    have "extends s (snd (resolve (exec n) t v s))"
      unfolding resolve_def
      by (auto intro!: seq_extends extends_stateMachine IH' extends_trans[OF _ extends_upd])
    then show ?thesis using CallResolve by simp
  next
    case (CallReject t e)
    have "extends s (snd (reject (exec n) t e s))"
      unfolding reject_def
      by (auto intro!: seq_extends extends_stateMachine IH' extends_trans[OF _ extends_upd])
    then show ?thesis using CallReject by simp
  next
    case (CallTrap p child)
    have "extends s (snd (trap (exec n) p child s))"
      unfolding trap_def
      by (auto split: option.splits intro!: seq_extends IH IH' extends_trans[OF _ extends_unlink])
    then show ?thesis using CallTrap by simp
  qed
qed

section \<open>A task in a terminal state stays as it is\<close>




lemma frozen_closures [simp]: "frozen t T0 evs (s\<lparr>closures := k\<rparr>) = frozen t T0 evs s"
  by (simp add: frozen_def)














section \<open>A halting task stays halting or halted\<close>

lemma halting_upd:
  "halting t s \<Longrightarrow> (\<And>T. state (f T) = state T) \<Longrightarrow> halting t (upd u f s)"
  by (auto simp: halting_def)

lemma halting_emit [simp]: "halting t (emit e s) = halting t s"
  and halting_closures [simp]: "halting t (s\<lparr>closures := k\<rparr>) = halting t s"
  by (simp_all add: halting_def)

lemma transitions_from_halting:
  "a = Halting \<or> a = Halted \<Longrightarrow> transitions ev a = Some b \<Longrightarrow> b = Halted"
  by (cases ev) auto

lemma halting_stateMachine: "halting t s \<Longrightarrow> halting t (snd (stateMachine ev u s))"
proof -
  assume a: "halting t s"
  then obtain T where T: "tasks s t = Some T" "state T = Halting \<or> state T = Halted"
    by (auto simp: halting_def)
  show ?thesis
  proof (cases "u = t")
    case False
    then show ?thesis using T by (auto simp: halting_def stateMachine_def split: option.splits)
  next
    case True
    show ?thesis
    proof (cases "transitions ev (state T)")
      case None
      then show ?thesis using a T True by (simp add: stateMachine_def)
    next
      case (Some b)
      with transitions_from_halting[OF T(2)] have "b = Halted" by simp
      then show ?thesis using T True Some by (simp add: halting_def stateMachine_def)
    qed
  qed
qed

lemma halting_addTrapper: "halting t s \<Longrightarrow> halting t (addTrapper u tr s)"
  unfolding addTrapper_def by (rule halting_upd) auto

lemma halting_removeTrapper: "halting t s \<Longrightarrow> halting t (removeTrapper u tr s)"
  unfolding removeTrapper_def by (rule halting_upd) auto

lemma halting_unlink: "halting t s \<Longrightarrow> halting t (snd (unlink p c s))"
  by (auto simp: unlink_def split: option.splits intro!: halting_upd halting_removeTrapper)

lemma halting_callHandlers: "halting t s \<Longrightarrow> halting t (callHandlers u s)"
  by (auto simp: halting_def callHandlers_def split: option.splits)

lemma halting_settle: "halting t s \<Longrightarrow> halting t (settle u s)"
  unfolding settle_def by (rule halting_upd) auto

lemmas seq_halting = seq_inv[where P="halting t" for t]

lemma halting_loop:
  assumes IH: "\<And>c s. halting t s \<Longrightarrow> halting t (snd (call c s))"
  shows "halting t s \<Longrightarrow> halting t (snd (haltChildrenLoop call u force cs s))"
  by (induction cs) (auto split: option.splits intro!: IH halting_addTrapper)

lemma halting_exec: "halting t s \<Longrightarrow> halting t (snd (exec n c s))"
proof (induction n arbitrary: c s)
  case 0
  then show ?case by simp
next
  case (Suc n)
  note IH = Suc.IH and a = Suc.prems
  show ?case
  proof (cases c)
    case (CallResume u)
    then show ?thesis using a
      by (auto simp: resume_def split: option.splits
          intro!: seq_halting IH halting_stateMachine halting_callHandlers halting_settle halting_upd)
  next
    case (CallTrappers u i)
    then show ?thesis using a
      by (auto simp: callTrappers_def split: option.splits trapper.splits intro!: seq_halting IH)
  next
    case (CallHaltChildren u force)
    then show ?thesis using a
      by (auto simp: haltChildren_def split: option.splits intro!: halting_loop IH)
  next
    case (CallHalt u)
    then show ?thesis using a IH[of s "CallControllerHalt u"]
      by (auto simp: halt_def split: prod.splits outcome.splits)
  next
    case (CallControllerHalt u)
    then show ?thesis using a by (auto simp: controllerHalt_def split: option.splits intro!: IH)
  next
    case (CallHalted u)
    then show ?thesis using a
      by (auto simp: halted_def intro!: seq_halting IH halting_stateMachine)
  next
    case (CallResolve u v)
    then show ?thesis using a
      by (auto simp: resolve_def intro!: seq_halting IH halting_stateMachine halting_upd)
  next
    case (CallReject u e)
    then show ?thesis using a
      by (auto simp: reject_def intro!: seq_halting IH halting_stateMachine halting_upd)
  next
    case (CallTrap p child)
    then show ?thesis using a
      by (auto simp: trap_def split: option.splits intro!: seq_halting IH halting_unlink)
  qed
qed

lemma halting_haltDone: "halting t s \<Longrightarrow> haltDone s t"
  by (auto simp: halting_def haltDone_def)

lemma halted_haltDone:
  assumes T: "tasks s t = Some T"
  shows "fst (exec n (CallHalted t) s) \<noteq> OutOfFuel \<Longrightarrow> haltDone s t \<or> halting t (snd (exec n (CallHalted t) s))"
proof (cases n)
  case 0
  assume "fst (exec n (CallHalted t) s) \<noteq> OutOfFuel"
  with 0 show ?thesis by simp
next
  case (Suc j)
  show ?thesis
  proof (cases "transitions Halt (state T)")
    case None
    then have "haltDone s t" using T by (cases "state T") (auto simp: haltDone_def)
    then show ?thesis by simp
  next
    case (Some b)
    then have b: "b = Halting" by (cases "state T") auto
    define s0 where "s0 = emit (StateEvent t (state T) b) (upd t (\<lambda>T. T\<lparr>state := b\<rparr>) s)"
    have sm: "stateMachine Halt t s = (Normal, s0)" using T Some by (simp add: stateMachine_def s0_def)
    have h0: "halting t s0" using T b by (simp add: halting_def s0_def)
    have "halting t (snd (seq (exec j (CallHaltChildren t True) s0) (exec j (CallResume t))))"
      by (intro seq_halting halting_exec h0)
    then show ?thesis using Suc sm by (simp add: halted_def seq_def)
  qed
qed

lemma halt_haltDone:
  "fst (exec n (CallHalt t) s) \<noteq> OutOfFuel \<Longrightarrow> haltDone (snd (exec n (CallHalt t) s)) t"
proof -
  assume a: "fst (exec n (CallHalt t) s) \<noteq> OutOfFuel"
  then obtain k where n: "n = Suc k" by (cases n) auto
  from a n have b: "fst (exec k (CallControllerHalt t) s) \<noteq> OutOfFuel"
    by (auto simp: halt_def split: prod.splits outcome.splits)
  then obtain j where k: "k = Suc j" by (cases k) auto
  have s1: "snd (exec n (CallHalt t) s) = snd (exec k (CallControllerHalt t) s)"
    using n by (auto simp: halt_def split: prod.splits outcome.splits)
  show ?thesis
  proof (cases "tasks s t")
    case None
    then show ?thesis using s1 k by (simp add: controllerHalt_def haltDone_def)
  next
    case (Some T)
    show ?thesis
    proof (cases "state T = Halting \<or> isTerminal (state T)")
      case True
      then show ?thesis using s1 k Some
        by (auto simp: controllerHalt_def haltDone_def isTerminal_def)
    next
      case False
      then have e: "exec k (CallControllerHalt t) s = exec j (CallHalted t) s"
        using k Some by (simp add: controllerHalt_def)
      with b have "fst (exec j (CallHalted t) s) \<noteq> OutOfFuel" by simp
      from halted_haltDone[OF Some this] show ?thesis
      proof
        assume d: "haltDone s t"
        then have "transitions Halt (state T) = None"
          using Some by (cases "state T") (auto simp: haltDone_def)
        then have "snd (exec j (CallHalted t) s) = s"
          using Some by (cases j) (simp_all add: halted_def stateMachine_def seq_def)
        with d s1 e show ?thesis by simp
      next
        assume "halting t (snd (exec j (CallHalted t) s))"
        then show ?thesis using s1 e by (simp add: halting_haltDone)
      qed
    qed
  qed
qed

lemma haltDone_stateMachine:
  "haltDone s t \<Longrightarrow> \<exists>e. stateMachine Halt t s = (Threw e, s)"
proof (cases "tasks s t")
  case None
  then show ?thesis by (simp add: stateMachine_def)
next
  case (Some T)
  assume "haltDone s t"
  with Some have "transitions Halt (state T) = None"
    by (cases "state T") (auto simp: haltDone_def)
  with Some show ?thesis by (simp add: stateMachine_def)
qed

lemma haltDone_halted:
  assumes "haltDone s t"
  shows "snd (exec i (CallHalted t) s) = s \<and> (i \<noteq> 0 \<longrightarrow> fst (exec i (CallHalted t) s) \<noteq> OutOfFuel)"
proof (cases i)
  case 0
  then show ?thesis by simp
next
  case (Suc j)
  from haltDone_stateMachine[OF assms] obtain e where "stateMachine Halt t s = (Threw e, s)" ..
  then show ?thesis using Suc by (simp add: halted_def seq_def)
qed

lemma haltDone_controllerHalt:
  assumes "haltDone s t"
  shows "snd (exec i (CallControllerHalt t) s) = s
    \<and> (2 \<le> i \<longrightarrow> fst (exec i (CallControllerHalt t) s) \<noteq> OutOfFuel)"
proof (cases i)
  case 0
  then show ?thesis by simp
next
  case (Suc j)
  show ?thesis
  proof (cases "tasks s t")
    case None
    then show ?thesis using Suc by (simp add: controllerHalt_def)
  next
    case (Some T)
    show ?thesis
    proof (cases "state T = Halting \<or> isTerminal (state T)")
      case True
      then show ?thesis using Suc Some by (simp add: controllerHalt_def)
    next
      case False
      then have "exec i (CallControllerHalt t) s = exec j (CallHalted t) s"
        using Suc Some by (simp add: controllerHalt_def)
      with haltDone_halted[OF assms, of j] Suc show ?thesis by auto
    qed
  qed
qed

lemma haltDone_halt_noop:
  assumes "haltDone s t"
  shows "exec (Suc (Suc (Suc m))) (CallHalt t) s = (Normal, s) \<and> snd (exec k (CallHalt t) s) = s"
proof -
  have a: "snd (exec (Suc i) (CallHalt t) s) = s
      \<and> (2 \<le> i \<longrightarrow> fst (exec (Suc i) (CallHalt t) s) = Normal)" for i
    using haltDone_controllerHalt[OF assms, of i]
    by (cases "exec i (CallControllerHalt t) s"; cases "fst (exec i (CallControllerHalt t) s)")
      (auto simp: halt_def)
  have "snd (exec k (CallHalt t) s) = s"
    using a[of "k - 1"] by (cases k) auto
  moreover have "exec (Suc (Suc (Suc m))) (CallHalt t) s = (Normal, s)"
    using a[of "Suc (Suc m)"]
    by (cases "exec (Suc (Suc (Suc m))) (CallHalt t) s") (auto simp del: exec.simps)
  ultimately show ?thesis by simp
qed

section \<open>The claims\<close>

subsection \<open>C1: a terminal state is entered only without children\<close>

text \<open>
  C1. In every store that a program builds, a task that is in a terminal state
  (completed, errored or halted) has no children, and a task whose deferred is settled
  is in a terminal state. \<open>resume\<close> does nothing, and so neither finishes the state
  machine nor settles the deferred, unless the state is a finishing state and
  \<open>children\<close> is empty.
\<close>

theorem terminal_only_without_children:
  "(taskState (program n cmds) t = Some st \<longrightarrow> isTerminal st \<longrightarrow>
      taskChildren (program n cmds) t = Some [])
   \<and> (taskDeferred (program n cmds) t = Some (Some d) \<longrightarrow>
      (\<exists>st. taskState (program n cmds) t = Some st \<and> isTerminal st))
   \<and> (tasks s t = Some T \<longrightarrow> \<not> (isFinishing (state T) \<and> children T = []) \<longrightarrow>
      exec (Suc m) (CallResume t) s = (Normal, s))"
proof (intro conjI impI)
  assume "taskState (program n cmds) t = Some st" "isTerminal st"
  then obtain T where T: "tasks (program n cmds) t = Some T" "isTerminal (state T)"
    by (auto simp: taskState_def)
  from wellFormedD[OF wellFormed_program T(1)] T(2) have "children T = []"
    by (simp add: taskInv_def)
  then show "taskChildren (program n cmds) t = Some []"
    using T by (simp add: taskChildren_def)
next
  assume "taskDeferred (program n cmds) t = Some (Some d)"
  then obtain T where T: "tasks (program n cmds) t = Some T" "deferred T = Some d"
    by (auto simp: taskDeferred_def)
  from wellFormedD[OF wellFormed_program T(1)] T(2) have "isTerminal (state T)"
    by (auto simp: taskInv_def isTerminal_def)
  then show "\<exists>st. taskState (program n cmds) t = Some st \<and> isTerminal st"
    using T by (simp add: taskState_def)
next
  assume "tasks s t = Some T" "\<not> (isFinishing (state T) \<and> children T = [])"
  then show "exec (Suc m) (CallResume t) s = (Normal, s)"
    by (auto simp: resume_def)
qed

theorem terminal_only_without_children_witness:
  "taskState (program 20 familyCompletes) 1 = Some Completed \<and> isTerminal Completed
   \<and> taskChildren (program 20 familyCompletes) 1 = Some []
   \<and> taskDeferred (program 20 familyCompletes) 1 = Some (Some (Fulfilled (Some 9)))
   \<and> taskState (program 20 [Create plainOptions, Spawn 1 plainOptions]) 1 = Some Running
   \<and> exec (Suc 0) (CallResume 1) (program 20 [Create plainOptions, Spawn 1 plainOptions])
       = (Normal, program 20 [Create plainOptions, Spawn 1 plainOptions])"
proof -
  have a: "taskState (program 20 familyCompletes) 1 = Some Completed" by code_simp
  have b: "taskDeferred (program 20 familyCompletes) 1 = Some (Some (Fulfilled (Some 9)))"
    by code_simp
  have c: "taskState (program 20 [Create plainOptions, Spawn 1 plainOptions]) 1 = Some Running"
    by code_simp
  then obtain T where T: "tasks (program 20 [Create plainOptions, Spawn 1 plainOptions]) 1 = Some T"
    "state T = Running" by (auto simp: taskState_def)
  show ?thesis
    using terminal_only_without_children
      [where n=20 and cmds=familyCompletes and t=1 and st=Completed and d="Fulfilled (Some 9)"
        and s="program 20 [Create plainOptions, Spawn 1 plainOptions]" and T=T and m=0]
      a b c T
    by (simp add: isTerminal_def isFinishing_def)
qed

subsection \<open>C5: result and error against the terminal state\<close>




section \<open>Facts about frames\<close>

lemma loop_flags: "loop n f = Some f' \<Longrightarrow> aborted f' = aborted f \<and> crash f' = crash f"
proof (induction n arbitrary: f)
  case 0
  then show ?case by simp
next
  case (Suc n)
  from Suc.prems show ?case
    by (auto simp: Let_def split: if_splits thunk.splits prod.splits iter_step.splits
        instruction.splits outcome_result.splits dest!: Suc.IH)
qed

lemma loop_exit: "loop n f = Some f' \<Longrightarrow> status f' = Exited x \<Longrightarrow> \<exists>r. x = exitOf r f"
proof (induction n arbitrary: f)
  case 0
  then show ?case by simp
next
  case (Suc n)
  from Suc.prems show ?case
    by (auto simp: Let_def exitOf_def split: if_splits thunk.splits prod.splits iter_step.splits
        instruction.splits outcome_result.splits dest!: Suc.IH)
qed

lemma exitOf_destroyed: "aborted f \<Longrightarrow> exitOfDestroyed (crash f) (exitOf r f)"
  by (auto simp: exitOf_def split: outcome_result.splits option.splits)

subsection \<open>C9: the exit of a destroyed frame\<close>

text \<open>
  C9, as stated, fails: a frame destroyed with a reason does not exit as \<open>crashed\<close> when
  its body ends with an error. Here the body throws while it is aborted, and the exit
  is the \<open>result\<close> with that error; the test \<open>!result.ok\<close> comes first.
\<close>

theorem destroyed_with_reason_exits_with_result:
  "statusAfterDestroy 5 cleanupThrows (Some (OperationError 1))
     = Some (Exited (ExitResult (Err (OperationError 7))))"
  by (simp add: statusAfterDestroy_def enter_def newFrame_def cleanupThrows_def destroy_def
      interrupt_def getNext_def exitOf_def numeral_eq_Suc)

text \<open>
  C9, amended. A frame that is destroyed while it is suspended, or that was destroyed
  before and leaves later (after its instruction settles, or when it is entered), exits
  as \<open>crashed\<close> with the reason of the destroy when there was one and as \<open>aborted\<close>
  when there was none, unless its body ends with an error: then the exit is the
  \<open>result\<close> with that error. It never exits with a value, also when the body yields
  further instructions after the abort.
\<close>

theorem exit_of_destroyed_frame:
  "(\<not> aborted f \<longrightarrow> status f = Suspended \<longrightarrow> destroy n reason f = Some f' \<longrightarrow> status f' = Exited x
      \<longrightarrow> exitOfDestroyed reason x)
   \<and> (aborted f \<longrightarrow> status f = Suspended \<longrightarrow> settled n r f = Some f' \<longrightarrow> status f' = Exited x
      \<longrightarrow> exitOfDestroyed (crash f) x)
   \<and> (aborted f \<longrightarrow> status f = Created \<longrightarrow> enter n f = Some f' \<longrightarrow> status f' = Exited x
      \<longrightarrow> exitOfDestroyed (crash f) x)"
proof (intro conjI impI)
  assume a: "\<not> aborted f" "status f = Suspended" "destroy n reason f = Some f'" "status f' = Exited x"
  let ?g = "f\<lparr>aborted := True, crash := reason, thunks := Thunk AbortFn # thunks f\<rparr>"
  from a have "loop n ?g = Some f'" by (simp add: destroy_def interrupt_def)
  from loop_exit[OF this a(4)] obtain r where "x = exitOf r ?g" ..
  moreover have "exitOfDestroyed (crash ?g) (exitOf r ?g)" by (rule exitOf_destroyed) simp
  ultimately show "exitOfDestroyed reason x" by simp
next
  assume a: "aborted f" "status f = Suspended" "settled n r f = Some f'" "status f' = Exited x"
  let ?g = "f\<lparr>thunks := Thunk (case r of Ok v \<Rightarrow> NextFn v | Err e \<Rightarrow> ThrowFn e) # thunks f\<rparr>"
  from a have "loop n ?g = Some f'" by (simp add: settled_def)
  from loop_exit[OF this a(4)] obtain r' where "x = exitOf r' ?g" ..
  moreover have "exitOfDestroyed (crash ?g) (exitOf r' ?g)" by (rule exitOf_destroyed) (simp add: a)
  ultimately show "exitOfDestroyed (crash f) x" by simp
next
  assume a: "aborted f" "status f = Created" "enter n f = Some f'" "status f' = Exited x"
  from a have "loop n f = Some f'" by (simp add: enter_def)
  from loop_exit[OF this a(4)] obtain r' where "x = exitOf r' f" ..
  then show "exitOfDestroyed (crash f) x" using exitOf_destroyed[OF a(1)] by simp
qed

theorem exit_of_destroyed_frame_witness:
  "statusAfterDestroy 5 cleanupYields None = Some (Exited ExitAborted)
   \<and> statusAfterDestroy 5 cleanupYields (Some (OperationError 1))
       = Some (Exited (ExitCrashed (OperationError 1)))
   \<and> map_option status
        (Option.bind (Option.bind (destroy 5 None (newFrame cleanupYields)) (enter 5))
           (settled 5 (Ok None)))
       = Some (Exited ExitAborted)
   \<and> map_option status (Option.bind (destroy 5 None (newFrame returnsAtOnce)) (enter 5))
       = Some (Exited ExitAborted)
   \<and> exitOfDestroyed (Some (OperationError 1)) (ExitCrashed (OperationError 1))
   \<and> exitOfDestroyed None ExitAborted"
proof -
  note defs = enter_def newFrame_def cleanupYields_def returnsAtOnce_def destroy_def
    interrupt_def settled_def getNext_def exitOf_def numeral_eq_Suc
  obtain f where f: "enter 5 (newFrame cleanupYields) = Some f" "\<not> aborted f" "status f = Suspended"
    by (simp add: defs)
  have a: "map_option status (destroy 5 None f) = Some (Exited ExitAborted)"
    and b: "map_option status (destroy 5 (Some (OperationError 1)) f)
       = Some (Exited (ExitCrashed (OperationError 1)))"
    using f(1) by (auto simp: defs)
  from a obtain f1 where f1: "destroy 5 None f = Some f1" "status f1 = Exited ExitAborted" by auto
  from b obtain f2 where f2: "destroy 5 (Some (OperationError 1)) f = Some f2"
    "status f2 = Exited (ExitCrashed (OperationError 1))" by auto
  obtain g where g: "Option.bind (destroy 5 None (newFrame cleanupYields)) (enter 5) = Some g"
    "aborted g" "status g = Suspended" "crash g = None"
    by (simp add: defs)
  have c: "map_option status (settled 5 (Ok None) g) = Some (Exited ExitAborted)"
    using g(1) by (auto simp: defs)
  then obtain g1 where g1: "settled 5 (Ok None) g = Some g1" "status g1 = Exited ExitAborted"
    by auto
  obtain h where h: "destroy 5 None (newFrame returnsAtOnce) = Some h"
    "aborted h" "status h = Created" "crash h = None"
    by (simp add: defs)
  have d: "map_option status (enter 5 h) = Some (Exited ExitAborted)"
    using h(1) by (auto simp: defs)
  then obtain h1 where h1: "enter 5 h = Some h1" "status h1 = Exited ExitAborted" by auto
  have "exitOfDestroyed None ExitAborted"
    using exit_of_destroyed_frame[where f=f and n=5 and reason=None and f'=f1 and x=ExitAborted]
      f f1 by simp
  moreover have "exitOfDestroyed (Some (OperationError 1)) (ExitCrashed (OperationError 1))"
    using exit_of_destroyed_frame[where f=f and n=5 and reason="Some (OperationError 1)" and f'=f2
        and x="ExitCrashed (OperationError 1)"] f f2 by simp
  moreover have "exitOfDestroyed (crash g) ExitAborted"
    using exit_of_destroyed_frame[where f=g and n=5 and r="Ok None" and f'=g1 and x=ExitAborted]
      g g1 by simp
  moreover have "exitOfDestroyed (crash h) ExitAborted"
    using exit_of_destroyed_frame[where f=h and n=5 and f'=h1 and x=ExitAborted]
      h h1 by simp
  ultimately show ?thesis using a b c d f(1) g(1) h(1) by (simp add: statusAfterDestroy_def)
qed

subsection \<open>C10: halt of a function body before start\<close>

text \<open>
  C10. The controller of a function body, as it is made, answers \<open>halt\<close> with the
  error "halt called before start" and makes no call to halt anything; \<open>halt\<close> throws
  that error exactly as long as \<open>controller\<close> is not set. \<open>start\<close> sets it when the body
  returns (a promise or an iterator), and \<open>halt\<close> then hands on to that controller;
  when the body throws, \<open>start\<close> rejects the task and \<open>halt\<close> keeps throwing.
\<close>

theorem halt_before_start_throws:
  "functionHalt (newFunctionContoller op) = Inl HaltBeforeStart
   \<and> ((functionHalt fc = Inl HaltBeforeStart) = (controller fc = None))
   \<and> (operation fc = BodyPromise p \<longrightarrow>
        functionHalt (fst (functionStart fc)) = Inr [InnerHalt (PromiseController p)])
   \<and> (operation fc = BodyIterator i \<longrightarrow>
        functionHalt (fst (functionStart fc)) = Inr [InnerHalt (IteratorController i)])
   \<and> (operation fc = BodyThrows e \<longrightarrow> controller fc = None \<longrightarrow>
        functionStart fc = (fc, [TaskReject e])
        \<and> functionHalt (fst (functionStart fc)) = Inl HaltBeforeStart)"
  by (auto simp: functionHalt_def functionStart_def newFunctionContoller_def split: option.splits)

theorem halt_before_start_throws_witness:
  "functionHalt (newFunctionContoller (BodyPromise 1)) = Inl HaltBeforeStart
   \<and> operation (newFunctionContoller (BodyPromise 1)) = BodyPromise 1
   \<and> functionHalt (fst (functionStart (newFunctionContoller (BodyPromise 1))))
       = Inr [InnerHalt (PromiseController 1)]
   \<and> operation (newFunctionContoller (BodyIterator 2)) = BodyIterator 2
   \<and> functionHalt (fst (functionStart (newFunctionContoller (BodyIterator 2))))
       = Inr [InnerHalt (IteratorController 2)]
   \<and> operation (newFunctionContoller (BodyThrows HaltError)) = BodyThrows HaltError
   \<and> controller (newFunctionContoller (BodyThrows HaltError)) = None
   \<and> functionHalt (fst (functionStart (newFunctionContoller (BodyThrows HaltError))))
       = Inl HaltBeforeStart"
  using halt_before_start_throws[where op="BodyPromise 1"
      and fc="newFunctionContoller (BodyPromise 1)" and p=1]
    halt_before_start_throws[where fc="newFunctionContoller (BodyIterator 2)" and i=2]
    halt_before_start_throws[where fc="newFunctionContoller (BodyThrows HaltError)" and e=HaltError]
  by (simp add: newFunctionContoller_def)

subsection \<open>C2: haltChildren\<close>

lemma haltChildrenLoop_find:
  "\<forall>c\<in>set cs. tasks s c \<noteq> None \<Longrightarrow>
   haltChildrenLoop call t force cs s =
     (case find (haltable s force) cs of
        None \<Rightarrow> (Normal, s)
      | Some c \<Rightarrow> call (CallHalt c)
          (addTrapper c (HaltNext t force (closures s)) (s\<lparr>closures := Suc (closures s)\<rparr>)))"
  by (induction cs) (auto simp: haltable_def split: option.splits)

text \<open>
  C2. \<open>haltChildren(force)\<close> looks at the children from the last spawned to the first
  and stops at the first one that \<open>force\<close> or its missing \<open>blockParent\<close> lets it halt:
  on that child it registers a new trapper and calls \<open>halt\<close>, and that is all it does;
  with no such child it does nothing. The trapper, when it is called, calls
  \<open>haltChildren(force)\<close> again. \<open>resolve\<close> calls \<open>haltChildren(false)\<close>, \<open>reject\<close> and
  \<open>halted\<close> call \<open>haltChildren(true)\<close>.
\<close>

theorem haltChildren_one_child_at_a_time:
  "(tasks s t = Some T \<longrightarrow> (\<forall>c\<in>set (children T). tasks s c \<noteq> None) \<longrightarrow>
      exec (Suc n) (CallHaltChildren t force) s =
        (case find (haltable s force) (rev (children T)) of
           None \<Rightarrow> (Normal, s)
         | Some c \<Rightarrow> exec n (CallHalt c)
             (addTrapper c (HaltNext t force (closures s)) (s\<lparr>closures := Suc (closures s)\<rparr>))))
   \<and> (tasks s c = Some C \<longrightarrow> i < length (trappers C) \<longrightarrow>
        trappers C ! i = Some (HaltNext t force k) \<longrightarrow>
      exec (Suc n) (CallTrappers c i) s =
        seq (exec n (CallHaltChildren t force) (emit (TrapperCalled c (HaltNext t force k)) s))
            (exec n (CallTrappers c (Suc i))))
   \<and> exec (Suc n) (CallResolve t v) s =
        seq (stateMachine Resolve t s) (\<lambda>s.
        seq (exec n (CallHaltChildren t False) (upd t (\<lambda>T. T\<lparr>result := Some v\<rparr>) s))
            (exec n (CallResume t)))
   \<and> exec (Suc n) (CallReject t e) s =
        seq (stateMachine Reject t s) (\<lambda>s.
        seq (exec n (CallHaltChildren t True) (upd t (\<lambda>T. T\<lparr>result := None, error := e\<rparr>) s))
            (exec n (CallResume t)))
   \<and> exec (Suc n) (CallHalted t) s =
        seq (stateMachine Halt t s) (\<lambda>s.
        seq (exec n (CallHaltChildren t True) s) (exec n (CallResume t)))"
  by (auto simp: haltChildren_def haltChildrenLoop_find callTrappers_def resolve_def reject_def
      halted_def)


theorem haltChildren_one_child_at_a_time_witness:
  "taskChildren (program 9 family) 1 = Some [2, 3]
   \<and> find (haltable (program 9 family) False) (rev [2, 3]) = Some 2
   \<and> find (haltable (program 9 family) True) (rev [2, 3]) = Some 3
   \<and> exec (Suc 30) (CallHaltChildren 1 False) (program 9 family) =
       exec 30 (CallHalt 2)
         (addTrapper 2 (HaltNext 1 False (closures (program 9 family)))
            ((program 9 family)\<lparr>closures := Suc (closures (program 9 family))\<rparr>))
   \<and> exec (Suc 30) (CallHaltChildren 1 True) (program 9 family) =
       exec 30 (CallHalt 3)
         (addTrapper 3 (HaltNext 1 True (closures (program 9 family)))
            ((program 9 family)\<lparr>closures := Suc (closures (program 9 family))\<rparr>))
   \<and> map_option trappers
        (tasks (addTrapper 3 (HaltNext 1 True (closures (program 9 family)))
            ((program 9 family)\<lparr>closures := Suc (closures (program 9 family))\<rparr>)) 3)
       = Some [Some (ParentTrap 1), Some (HaltNext 1 True 0)]
   \<and> events (snd (exec 30 (CallHaltChildren 1 True) (program 9 family)))
       = events (program 9 family) @
         [StateEvent 3 Running Halting, StateEvent 3 Halting Halted,
          TrapperCalled 3 (ParentTrap 1), UnlinkEvent 1 3, TrapperCalled 3 (HaltNext 1 True 0),
          StateEvent 2 Running Halting, StateEvent 2 Halting Halted,
          TrapperCalled 2 (ParentTrap 1), UnlinkEvent 1 2, TrapperCalled 2 (HaltNext 1 True 1)]"
proof -
  have a: "taskChildren (program 9 family) 1 = Some [2, 3]"
    and b: "find (haltable (program 9 family) False) (rev [2, 3]) = Some 2"
    and c: "find (haltable (program 9 family) True) (rev [2, 3]) = Some 3"
    and d: "tasks (program 9 family) 2 \<noteq> None" "tasks (program 9 family) 3 \<noteq> None"
    and e: "map_option trappers
        (tasks (addTrapper 3 (HaltNext 1 True (closures (program 9 family)))
            ((program 9 family)\<lparr>closures := Suc (closures (program 9 family))\<rparr>)) 3)
       = Some [Some (ParentTrap 1), Some (HaltNext 1 True 0)]"
    and f: "events (snd (exec 30 (CallHaltChildren 1 True) (program 9 family)))
       = events (program 9 family) @
         [StateEvent 3 Running Halting, StateEvent 3 Halting Halted,
          TrapperCalled 3 (ParentTrap 1), UnlinkEvent 1 3, TrapperCalled 3 (HaltNext 1 True 0),
          StateEvent 2 Running Halting, StateEvent 2 Halting Halted,
          TrapperCalled 2 (ParentTrap 1), UnlinkEvent 1 2, TrapperCalled 2 (HaltNext 1 True 1)]"
    by code_simp+
  from a obtain T where T: "tasks (program 9 family) 1 = Some T" "children T = [2, 3]"
    by (auto simp: taskChildren_def)
  show ?thesis
    using haltChildren_one_child_at_a_time[where s="program 9 family" and t=1 and T=T and n=30
        and force=False]
      haltChildren_one_child_at_a_time[where s="program 9 family" and t=1 and T=T and n=30
        and force=True]
      a b c d e f T
    by simp
qed

subsection \<open>C4: the trap of a parent\<close>






subsection \<open>C7: spawn\<close>

lemma allAllocatedI:
  "(\<And>t T. tasks s t = Some T \<Longrightarrow> t \<le> COUNTER s \<and> (\<forall>c\<in>set (children T). c \<le> COUNTER s))
     \<Longrightarrow> allAllocated s"
  by (auto simp: allAllocated_def allocated_def)

lemma allAllocatedD:
  "allAllocated s \<Longrightarrow> tasks s t = Some T \<Longrightarrow> t \<le> COUNTER s \<and> (\<forall>c\<in>set (children T). c \<le> COUNTER s)"
  by (fastforce simp: allAllocated_def allocated_def)

lemma allAllocated_extends:
  assumes "allAllocated s" "extends s s'"
  shows "allAllocated s'"
proof (rule allAllocatedI)
  fix t T' assume T': "tasks s' t = Some T'"
  from extends_back[OF assms(2) T'] obtain T where T: "tasks s t = Some T"
    "set (children T') \<subseteq> set (children T)" "COUNTER s' = COUNTER s" by auto
  from allAllocatedD[OF assms(1) T(1)] T(2,3)
  show "t \<le> COUNTER s' \<and> (\<forall>c\<in>set (children T'). c \<le> COUNTER s')" by auto
qed

lemma allAllocated_createTask:
  assumes "allAllocated s"
  shows "allAllocated (snd (createTask opts s))"
proof (rule allAllocatedI)
  fix t T assume T: "tasks (snd (createTask opts s)) t = Some T"
  show "t \<le> COUNTER (snd (createTask opts s)) \<and> (\<forall>c\<in>set (children T). c \<le> COUNTER (snd (createTask opts s)))"
  proof (cases "t = Suc (COUNTER s)")
    case True
    with T show ?thesis by (auto simp: createTask_def Let_def)
  next
    case False
    with T have "tasks s t = Some T" by (auto simp: createTask_def Let_def)
    from allAllocatedD[OF assms this] show ?thesis by (auto simp: createTask_def Let_def)
  qed
qed

lemma allAllocated_link:
  assumes "allAllocated s" "c \<le> COUNTER s"
  shows "allAllocated (snd (link p c s))"
proof (rule allAllocatedI)
  fix t T assume T: "tasks (snd (link p c s)) t = Some T"
  have C: "COUNTER (snd (link p c s)) = COUNTER s"
    by (auto simp: link_def addTrapper_def split: option.splits)
  from T have "\<exists>T0. tasks s t = Some T0 \<and> set (children T) \<subseteq> insert c (set (children T0))"
    by (auto simp: link_def addTrapper_def split: option.splits if_splits)
  then obtain T0 where T0: "tasks s t = Some T0" "set (children T) \<subseteq> insert c (set (children T0))"
    by auto
  from allAllocatedD[OF assms(1) T0(1)] T0(2) assms(2) C
  show "t \<le> COUNTER (snd (link p c s)) \<and> (\<forall>x\<in>set (children T). x \<le> COUNTER (snd (link p c s)))"
    by auto
qed

lemma allAllocated_spawn:
  assumes "allAllocated s"
  shows "allAllocated (snd (fst (spawn t opts s)))"
proof (cases "tasks s t")
  case None
  then show ?thesis using assms by (simp add: spawn_def)
next
  case (Some T)
  show ?thesis
  proof (cases "state T = Running")
    case False
    then show ?thesis using assms Some by (simp add: spawn_def)
  next
    case True
    define opts' where "opts' = (if resourceScope opts = None then opts\<lparr>resourceScope := Some t\<rparr> else opts)"
    obtain child s1 where c: "createTask opts' s = (child, s1)" by (cases "createTask opts' s")
    then have c': "child = COUNTER s1" by (auto simp: createTask_def Let_def)
    have "allAllocated s1" using allAllocated_createTask[OF assms, of opts'] c by simp
    then have "allAllocated (snd (link t child s1))" by (rule allAllocated_link) (simp add: c')
    then have "allAllocated (snd (seq (link t child s1) (start child)))"
      by (rule seq_inv[where P=allAllocated])
        (auto simp: start_def intro: allAllocated_extends extends_stateMachine)
    then show ?thesis using Some True c by (simp add: spawn_def Let_def opts'_def)
  qed
qed

lemma allAllocated_step: "allAllocated s \<Longrightarrow> allAllocated (step n c s)"
proof (cases c)
  case (Create opts)
  assume a: "allAllocated s"
  have "allAllocated (snd (start t (snd (createTask opts s))))" for t
    unfolding start_def
    by (rule allAllocated_extends[OF allAllocated_createTask[OF a] extends_stateMachine])
  then show ?thesis using Create by (auto split: prod.splits)
next
  case (DoEnsure t h)
  assume "allAllocated s"
  then show ?thesis using DoEnsure
    by (auto simp: ensure_def intro!: allAllocated_extends[OF _ extends_upd] split: if_splits)
next
  case (DoAddTrapper t k)
  assume "allAllocated s"
  then show ?thesis using DoAddTrapper
    by (auto intro!: allAllocated_extends[OF _ extends_addTrapper])
qed (auto intro: allAllocated_spawn allAllocated_extends extends_exec)

lemma allAllocated_foldl: "allAllocated s \<Longrightarrow> allAllocated (foldl (\<lambda>s c. step n c s) s cmds)"
  by (induction cmds arbitrary: s) (simp_all add: allAllocated_step)

lemma allocated_program: "tasks (program n cmds) t \<noteq> None \<Longrightarrow> allocated (program n cmds) t"
proof -
  have "allAllocated initial" by (simp add: allAllocated_def initial_def)
  from allAllocated_foldl[OF this] show "tasks (program n cmds) t \<noteq> None \<Longrightarrow> allocated (program n cmds) t"
    by (simp add: program_def allAllocated_def)
qed

text \<open>
  C7. \<open>spawn\<close> on a task throws exactly when the state of the task is not \<open>running\<close>,
  and then changes nothing. On a running task it returns the child, which has the next
  id; the child is running, has \<open>controls.trap\<close> of the parent as its only trapper, and
  has the options given, with \<open>resourceScope\<close> set to the parent when none was given;
  the child is the last of the children of the parent. This holds in a store where the
  ids of the parent and its children have been handed out by the counter, which is so
  in every store that a program builds.
\<close>

theorem spawn_throws_or_links_and_starts:
  "(tasks (program n cmds) t \<noteq> None \<longrightarrow> allocated (program n cmds) t)
   \<and> (tasks s t = Some T \<longrightarrow>
     ((\<exists>e. fst (fst (spawn t opts s)) = Threw e) = (state T \<noteq> Running))
     \<and> (state T \<noteq> Running \<longrightarrow> spawn t opts s = ((Threw CannotSpawn, s), None))
     \<and> (state T = Running \<longrightarrow> allocated s t \<longrightarrow>
          (\<exists>s'. spawn t opts s = ((Normal, s'), Some (Suc (COUNTER s)))
             \<and> tasks s' (Suc (COUNTER s)) =
                 Some \<lparr>state = Running, children = [], trappers = [Some (ParentTrap t)],
                       ensureHandlers = [], result = None, error = None,
                       options = opts\<lparr>resourceScope :=
                         (if resourceScope opts = None then Some t else resourceScope opts)\<rparr>,
                       deferred = None\<rparr>
             \<and> tasks s' t = Some (T\<lparr>children := children T @ [Suc (COUNTER s)]\<rparr>)
             \<and> COUNTER s' = Suc (COUNTER s)
             \<and> events s' = events s @ [LinkEvent t (Suc (COUNTER s)),
                                        StateEvent (Suc (COUNTER s)) Pending Running])))"
proof (intro impI conjI)
  show "tasks (program n cmds) t \<noteq> None \<Longrightarrow> allocated (program n cmds) t"
    by (rule allocated_program)
next
  assume T: "tasks s t = Some T"
  define opts' where "opts' = (if resourceScope opts = None then opts\<lparr>resourceScope := Some t\<rparr> else opts)"
  have o: "opts' = opts\<lparr>resourceScope := (if resourceScope opts = None then Some t else resourceScope opts)\<rparr>"
    by (simp add: opts'_def)
  show "state T \<noteq> Running \<Longrightarrow> spawn t opts s = ((Threw CannotSpawn, s), None)"
    using T by (simp add: spawn_def)
  have run: "fst (fst (spawn t opts s)) = Normal" if "state T = Running"
    using T that
    by (auto simp: spawn_def Let_def createTask_def link_def start_def stateMachine_def seq_def
        addTrapper_def upd_def emit_def split: option.splits)
  show "(\<exists>e. fst (fst (spawn t opts s)) = Threw e) = (state T \<noteq> Running)"
    using T run by (auto simp: spawn_def)
  show "\<exists>s'. spawn t opts s = ((Normal, s'), Some (Suc (COUNTER s)))
             \<and> tasks s' (Suc (COUNTER s)) =
                 Some \<lparr>state = Running, children = [], trappers = [Some (ParentTrap t)],
                       ensureHandlers = [], result = None, error = None,
                       options = opts\<lparr>resourceScope :=
                         (if resourceScope opts = None then Some t else resourceScope opts)\<rparr>,
                       deferred = None\<rparr>
             \<and> tasks s' t = Some (T\<lparr>children := children T @ [Suc (COUNTER s)]\<rparr>)
             \<and> COUNTER s' = Suc (COUNTER s)
             \<and> events s' = events s @ [LinkEvent t (Suc (COUNTER s)),
                                        StateEvent (Suc (COUNTER s)) Pending Running]"
    if "state T = Running" "allocated s t"
    using T that unfolding o[symmetric]
    by (auto simp: spawn_def Let_def createTask_def link_def start_def stateMachine_def seq_def
        addTrapper_def upd_def emit_def allocated_def opts'_def)
qed

theorem spawn_throws_or_links_and_starts_witness:
  "taskState (program 9 [Create plainOptions]) 1 = Some Running
   \<and> allocated (program 9 [Create plainOptions]) 1
   \<and> snd (spawn 1 plainOptions (program 9 [Create plainOptions])) = Some 2
   \<and> fst (fst (spawn 1 plainOptions (program 9 [Create plainOptions]))) = Normal
   \<and> map_option (\<lambda>T. (state T, trappers T, resourceScope (options T)))
        (tasks (snd (fst (spawn 1 plainOptions (program 9 [Create plainOptions])))) 2)
       = Some (Running, [Some (ParentTrap 1)], Some 1)
   \<and> taskChildren (snd (fst (spawn 1 plainOptions (program 9 [Create plainOptions])))) 1 = Some [2]
   \<and> taskState (program 9 [Create plainOptions, DoResolve 1 7]) 1 = Some Completed
   \<and> spawn 1 plainOptions (program 9 [Create plainOptions, DoResolve 1 7])
       = ((Threw CannotSpawn, program 9 [Create plainOptions, DoResolve 1 7]), None)"
proof -
  define S where "S = program 9 [Create plainOptions]"
  define S' where "S' = program 9 [Create plainOptions, DoResolve 1 7]"
  have a: "taskState S 1 = Some Running"
    and b: "taskState S' 1 = Some Completed"
    and c: "taskChildren S 1 = Some []"
    and d: "COUNTER S = 1"
    unfolding S_def S'_def by code_simp+
  from a c obtain T where T: "tasks S 1 = Some T"
    "state T = Running" "children T = []" by (auto simp: taskState_def taskChildren_def)
  from b obtain U where U: "tasks S' 1 = Some U"
    "state U = Completed" by (auto simp: taskState_def)
  have al: "allocated S 1"
    using spawn_throws_or_links_and_starts[where n=9 and cmds="[Create plainOptions]" and t=1] T
    by (simp add: S_def)
  from spawn_throws_or_links_and_starts[where s=S and t=1 and T=T and opts=plainOptions
      and n=9 and cmds="[Create plainOptions]"] T al d
  obtain s' where s': "spawn 1 plainOptions S = ((Normal, s'), Some 2)"
    "map_option (\<lambda>T. (state T, trappers T, resourceScope (options T))) (tasks s' 2)
       = Some (Running, [Some (ParentTrap 1)], Some 1)"
    "tasks s' 1 = Some (T\<lparr>children := children T @ [2]\<rparr>)"
    by (auto simp: plainOptions_def numeral_2_eq_2)
  from spawn_throws_or_links_and_starts[where s=S' and t=1 and T=U and opts=plainOptions
      and n=9 and cmds="[Create plainOptions]"] U
  have "spawn 1 plainOptions S' = ((Threw CannotSpawn, S'), None)" by simp
  with a b al s' T show ?thesis
    unfolding S_def[symmetric] S'_def[symmetric] by (simp add: taskChildren_def)
qed

subsection \<open>C6: what awaiters get\<close>





subsection \<open>C8: halting and destroying twice\<close>

lemma destroy_again:
  "destroy n r1 f = Some f1 \<Longrightarrow>
     destroy m r2 f1 = Some f1 \<and> aborted f1 \<and> crash f1 = (if aborted f then crash f else r1)"
proof -
  assume a: "destroy n r1 f = Some f1"
  show ?thesis
  proof (cases "aborted f")
    case True
    then show ?thesis using a by (simp add: destroy_def)
  next
    case False
    let ?g = "f\<lparr>aborted := True, crash := r1, thunks := Thunk AbortFn # thunks f\<rparr>"
    have "aborted f1 \<and> crash f1 = r1"
    proof (cases "status f = Suspended")
      case True
      with a False have "loop n ?g = Some f1" by (simp add: destroy_def interrupt_def)
      from loop_flags[OF this] show ?thesis by simp
    next
      case False
      with a \<open>\<not> aborted f\<close> show ?thesis by (auto simp: destroy_def interrupt_def)
    qed
    then show ?thesis using False by (simp add: destroy_def)
  qed
qed

text \<open>
  C8. A call of \<open>halt\<close> on a task that follows a call of \<open>halt\<close> on it (one that was
  not cut off by the budget of the model) returns and changes nothing, so the task
  settles to the state the first call led it to. A call of \<open>destroy\<close> on a frame that
  has been destroyed changes nothing either: the frame is aborted, and its crash reason
  and its thunks are those the first call left.
\<close>

theorem halt_and_destroy_once:
  "(fst (exec n (CallHalt t) s) \<noteq> OutOfFuel \<longrightarrow>
      exec (Suc (Suc (Suc m))) (CallHalt t) (snd (exec n (CallHalt t) s))
        = (Normal, snd (exec n (CallHalt t) s))
      \<and> snd (exec k (CallHalt t) (snd (exec n (CallHalt t) s))) = snd (exec n (CallHalt t) s))
   \<and> (destroy n first f = Some g \<longrightarrow>
        destroy m second g = Some g \<and> aborted g
        \<and> crash g = (if aborted f then crash f else first))"
  using haltDone_halt_noop[OF halt_haltDone, of n t s m k] destroy_again[of n first f g m second]
  by blast

theorem halt_and_destroy_once_witness:
  "fst (exec 30 (CallHalt 1) (program 9 family)) = Normal
   \<and> taskState (snd (exec 30 (CallHalt 1) (program 9 family))) 1 = Some Halted
   \<and> exec (Suc (Suc (Suc 0))) (CallHalt 1) (snd (exec 30 (CallHalt 1) (program 9 family)))
       = (Normal, snd (exec 30 (CallHalt 1) (program 9 family)))
   \<and> map_option crash
        (Option.bind (enter 5 (newFrame cleanupYields)) (destroy 5 (Some (OperationError 1))))
       = Some (Some (OperationError 1))
   \<and> Option.bind (Option.bind (enter 5 (newFrame cleanupYields))
          (destroy 5 (Some (OperationError 1)))) (destroy 5 None)
       = Option.bind (enter 5 (newFrame cleanupYields)) (destroy 5 (Some (OperationError 1)))"
proof -
  note defs = enter_def newFrame_def cleanupYields_def destroy_def
    interrupt_def getNext_def exitOf_def numeral_eq_Suc
  have a: "fst (exec 30 (CallHalt 1) (program 9 family)) = Normal"
    and b: "taskState (snd (exec 30 (CallHalt 1) (program 9 family))) 1 = Some Halted"
    by code_simp+
  obtain f where f: "enter 5 (newFrame cleanupYields) = Some f" "\<not> aborted f"
    by (simp add: defs)
  obtain f1 where f1: "destroy 5 (Some (OperationError 1)) f = Some f1"
    using f(1) by (auto simp: defs)
  have a': "fst (exec 30 (CallHalt 1) (program 9 family)) \<noteq> OutOfFuel" using a by simp
  show ?thesis
    using halt_and_destroy_once[where n=30 and t=1 and s="program 9 family" and m=0 and k=0
        and first="Some (OperationError 1)" and f=f and g=f1 and second=None]
      halt_and_destroy_once[where n=5 and t=1 and s="program 9 family" and m=5 and k=0
        and first="Some (OperationError 1)" and f=f and g=f1 and second=None]
      a a' b f f1
    by simp
qed

end
